theory Spec2Isabelle
  imports Main "HOL-Library.Sublist"
begin

section \<open>The users service (apps/api, \<open>UsersService\<close>)\<close>

text \<open>
  The service is a class with two private fields, a counter \<open>nextId\<close> and an array
  \<open>users\<close>, and five methods. The embedding passes the two fields around as a record;
  a method that assigns to a field or mutates the array returns the new record next to
  its result, a method that throws returns the exception as \<open>Inl\<close>.

  The array holds one object per record. Every object in it comes from an object
  literal of its own (the three seeds, and the literal built by \<open>create\<close>), so no two
  positions of the array share an object, and a list of record values describes the
  array together with the objects it points to.
\<close>

subsection \<open>Data\<close>

text \<open>The interface \<open>User\<close>. Its field \<open>id\<close> is named \<open>id_user\<close> here.\<close>

record User =
  id_user :: int
  name :: string
  email :: string

text \<open>
  Modelled from the spec: the two DTO classes are imported from \<open>./dto\<close> and their
  declarations are not part of the sources at hand. The resource contract gives the
  body of a create request as \<open>{name, email}\<close> and the body of an update request as a
  partial set of those fields. The service does not validate a body, and what reaches
  \<open>create\<close> and \<open>update\<close> is the object made from the request, which can have an own
  property \<open>id\<close> as well. A property that a body does not have is \<open>None\<close>.
\<close>

record CreateUserDto =
  create_id :: "int option"
  create_name :: string
  create_email :: string

record UpdateUserDto =
  update_id :: "int option"
  update_name :: "string option"
  update_email :: "string option"

text \<open>The private fields of the class.\<close>

record UsersService =
  nextId :: int
  users :: "User list"

text \<open>
  The only exception the class throws. Its message is \<open>User #<id> not found\<close>; the model
  keeps the id the message is formatted from.
\<close>

datatype error = NotFoundException int

text \<open>The field initialisers of the class.\<close>

definition initial_service :: UsersService where
  "initial_service =
     \<lparr>nextId = 4,
      users =
        [\<lparr>id_user = 1, name = ''Alice Johnson'', email = ''alice@example.com''\<rparr>,
         \<lparr>id_user = 2, name = ''Bob Smith'', email = ''bob@example.com''\<rparr>,
         \<lparr>id_user = 3, name = ''Charlie Brown'', email = ''charlie@example.com''\<rparr>]\<rparr>"

subsection \<open>Numbers and array primitives\<close>

text \<open>
  The counter is a JavaScript number, a double. \<open>increment n\<close> is the value that
  \<open>nextId++\<close> leaves in a counter that holds the whole number \<open>n \<ge> 0\<close>: the sum
  \<open>n + 1\<close> rounded to the nearest double, ties to the even significand. Below \<open>2 ^ 53\<close>
  the sum is a double itself. From \<open>2 ^ 53\<close> to \<open>2 ^ 54\<close> the doubles are the even
  numbers, \<open>n + 1\<close> lies halfway between \<open>n\<close> and \<open>n + 2\<close>, and the one of them that is
  a multiple of 4 has the even significand. From \<open>2 ^ 54\<close> on \<open>n\<close> is the nearest double.
  So a counter that has reached \<open>2 ^ 53\<close> stays there.
\<close>

definition increment :: "int \<Rightarrow> int" where
  "increment n =
     (if n < 2 ^ 53 then n + 1
      else if n < 2 ^ 54 \<and> n mod 4 = 2 then n + 2
      else n)"

text \<open>
  \<open>Array.prototype.find\<close> is \<^const>\<open>List.find\<close>, with \<open>undefined\<close> as \<open>None\<close>.
  \<open>Array.prototype.findIndex\<close> walks the indices upwards and answers \<open>-1\<close> when no
  element satisfies the predicate.
\<close>

fun findIndex_from :: "('a \<Rightarrow> bool) \<Rightarrow> int \<Rightarrow> 'a list \<Rightarrow> int" where
  "findIndex_from P k [] = -1"
| "findIndex_from P k (x # xs) = (if P x then k else findIndex_from P (k + 1) xs)"

definition findIndex :: "('a \<Rightarrow> bool) \<Rightarrow> 'a list \<Rightarrow> int" where
  "findIndex P xs = findIndex_from P 0 xs"

text \<open>
  \<open>Array.prototype.splice(start, deleteCount)\<close> with no items to insert: a negative
  start counts from the end, both arguments are clamped to the array. The value is the
  array as \<open>splice\<close> leaves it (the service discards the removed elements). The name
  \<open>splice\<close> is taken by a list function of HOL.
\<close>

definition splice_array :: "'a list \<Rightarrow> int \<Rightarrow> int \<Rightarrow> 'a list" where
  "splice_array xs start deleteCount =
     (let len = int (length xs);
          actualStart = (if start < 0 then max (len + start) 0 else min start len);
          actualDeleteCount = min (max deleteCount 0) (len - actualStart)
      in take (nat actualStart) xs @ drop (nat (actualStart + actualDeleteCount)) xs)"

text \<open>
  \<open>Object.assign(user, dto)\<close>: every own property of the body is written to the user,
  the id included when the body has one; every other property of the user stays.
\<close>

definition assign :: "User \<Rightarrow> UpdateUserDto \<Rightarrow> User" where
  "assign user dto =
     user\<lparr>id_user := (case update_id dto of None \<Rightarrow> id_user user | Some i \<Rightarrow> i),
          name := (case update_name dto of None \<Rightarrow> name user | Some n \<Rightarrow> n),
          email := (case update_email dto of None \<Rightarrow> email user | Some e \<Rightarrow> e)\<rparr>"

subsection \<open>Methods\<close>

definition findAll :: "UsersService \<Rightarrow> User list" where
  "findAll s = users s"

definition findOne :: "UsersService \<Rightarrow> int \<Rightarrow> error + User" where
  "findOne s i =
     (case List.find (\<lambda>u. id_user u = i) (users s) of
        None \<Rightarrow> Inl (NotFoundException i)
      | Some user \<Rightarrow> Inr user)"

text \<open>
  \<open>create\<close> builds \<open>{ id: this.nextId++, ...dto }\<close>: the counter is read and advanced,
  then the properties of the body are spread over the literal, so that an \<open>id\<close> of the
  body replaces the value read from the counter.
\<close>

definition create :: "UsersService \<Rightarrow> CreateUserDto \<Rightarrow> User \<times> UsersService" where
  "create s dto =
     (let user = \<lparr>id_user = (case create_id dto of None \<Rightarrow> nextId s | Some i \<Rightarrow> i),
                  name = create_name dto, email = create_email dto\<rparr>
      in (user, s\<lparr>nextId := increment (nextId s), users := users s @ [user]\<rparr>))"

text \<open>
  \<open>update\<close> mutates the object that \<open>findOne\<close> returned, which is the object at the first
  position of the array whose id matches; the model writes the assigned record back to
  that position.
\<close>

definition update :: "UsersService \<Rightarrow> int \<Rightarrow> UpdateUserDto \<Rightarrow> (error + User) \<times> UsersService" where
  "update s i dto =
     (case findOne s i of
        Inl e \<Rightarrow> (Inl e, s)
      | Inr user \<Rightarrow>
          (let user' = assign user dto;
               k = findIndex (\<lambda>u. id_user u = i) (users s)
           in (Inr user', s\<lparr>users := (users s)[nat k := user']\<rparr>)))"

definition remove :: "UsersService \<Rightarrow> int \<Rightarrow> (error + unit) \<times> UsersService" where
  "remove s i =
     (let index = findIndex (\<lambda>u. id_user u = i) (users s)
      in if index = -1 then (Inl (NotFoundException i), s)
         else (Inr (), s\<lparr>users := splice_array (users s) index 1\<rparr>))"

subsection \<open>Sequences of requests\<close>

text \<open>
  The five operations of the resource contract, each served by one method, and what a
  caller gets back. A request that fails leaves the service to serve the next one.
\<close>

datatype op = List | Get int | Create CreateUserDto | Update int UpdateUserDto | Delete int

datatype reply = Records "User list" | Record User | Done | Failed error

fun exec :: "op \<Rightarrow> UsersService \<Rightarrow> reply \<times> UsersService" where
  "exec List s = (Records (findAll s), s)"
| "exec (Get i) s = (case findOne s i of Inl e \<Rightarrow> (Failed e, s) | Inr u \<Rightarrow> (Record u, s))"
| "exec (Create dto) s = (case create s dto of (u, s') \<Rightarrow> (Record u, s'))"
| "exec (Update i dto) s =
     (case update s i dto of (Inl e, s') \<Rightarrow> (Failed e, s') | (Inr u, s') \<Rightarrow> (Record u, s'))"
| "exec (Delete i) s =
     (case remove s i of (Inl e, s') \<Rightarrow> (Failed e, s') | (Inr _, s') \<Rightarrow> (Done, s'))"

text \<open>The service after a sequence of requests, and after one from the seeded state.\<close>

fun steps :: "UsersService \<Rightarrow> op list \<Rightarrow> UsersService" where
  "steps s [] = s"
| "steps s (x # xs) = steps (snd (exec x s)) xs"

definition run :: "op list \<Rightarrow> UsersService" where
  "run ops = steps initial_service ops"

text \<open>The ids that the Create requests of a sequence returned, oldest first.\<close>

fun created_ids :: "UsersService \<Rightarrow> op list \<Rightarrow> int list" where
  "created_ids s [] = []"
| "created_ids s (x # xs) =
     (case x of Create dto \<Rightarrow> [id_user (fst (create s dto))] | _ \<Rightarrow> [])
     @ created_ids (snd (exec x s)) xs"

abbreviation ids :: "UsersService \<Rightarrow> int list" where
  "ids s \<equiv> map id_user (users s)"

subsection \<open>Requests as the contract describes them, and the invariant\<close>

text \<open>
  A request is regular in a state when its body has the properties that the contract
  gives it and no \<open>id\<close>, and, for a Create, when the counter is below \<open>2 ^ 53\<close>, so
  that \<open>nextId++\<close> still adds one. A sequence of requests is regular from a state when
  each request is regular in the state in which it is served.
\<close>

fun regular :: "UsersService \<Rightarrow> op \<Rightarrow> bool" where
  "regular s (Create dto) = (create_id dto = None \<and> nextId s < 2 ^ 53)"
| "regular s (Update i dto) = (update_id dto = None)"
| "regular s List = True"
| "regular s (Get i) = True"
| "regular s (Delete i) = True"

fun regular_from :: "UsersService \<Rightarrow> op list \<Rightarrow> bool" where
  "regular_from s [] = True"
| "regular_from s (x # xs) = (regular s x \<and> regular_from (snd (exec x s)) xs)"

text \<open>
  What every state satisfies that the seeded service reaches by regular requests: the
  counter is positive, every id in the array is positive and below the counter, and the
  ids in the array increase strictly from left to right. Since \<open>create\<close> then hands out
  increasing ids, the last part says that the array is in the order in which its records
  were inserted.
\<close>

definition invariant :: "UsersService \<Rightarrow> bool" where
  "invariant s \<longleftrightarrow>
     0 < nextId s \<and>
     (\<forall>u\<in>set (users s). 0 < id_user u \<and> id_user u < nextId s) \<and>
     sorted_wrt (<) (ids s)"

text \<open>
  A long run that keeps the array short: \<open>churn n\<close> creates a user and deletes it again,
  \<open>n\<close> times over, on the seeded service. It leaves the three seeds and a counter that
  has advanced \<open>n\<close> times.
\<close>

definition churn :: "nat \<Rightarrow> op list" where
  "churn n =
     concat (map (\<lambda>k. [Create \<lparr>create_id = None, create_name = ''X'', create_email = ''x@y.com''\<rparr>,
                        Delete (4 + int k)]) [0..<n])"

section \<open>The load runner (apps/k6/load-test.js)\<close>

text \<open>
  The script runs inside k6, which is not part of the repository. What the script takes
  from k6 is a parameter of the model, the record \<open>k6\<close> below: the server that answers a
  request, what the script can read from a response, the clock, and what sleeping does.
  The world these act on has any type \<open>'w\<close>, a response any type \<open>'r\<close>. The script's
  own control flow, JavaScript's truthiness and property access, and the order in which
  k6's \<open>check\<close> calls the predicates it is given are modelled. Every call that can be
  observed from outside is appended to a trace, in the order in which the script makes
  it.
\<close>

subsection \<open>Values and requests\<close>

text \<open>JSON values as JavaScript sees them, and JavaScript's truthiness.\<close>

datatype jsval =
    JUndefined | JNull | JBool bool | JNum int | JStr string
  | JArray "jsval list" | JObject "(string \<times> jsval) list"

fun truthy :: "jsval \<Rightarrow> bool" where
  "truthy JUndefined = False"
| "truthy JNull = False"
| "truthy (JBool b) = b"
| "truthy (JNum n) = (n \<noteq> 0)"
| "truthy (JStr s) = (s \<noteq> [])"
| "truthy (JArray _) = True"
| "truthy (JObject _) = True"

text \<open>
  A template literal is kept as its pieces: the literal text and the values
  interpolated into it, in order.
\<close>

datatype piece = Lit string | Val jsval

type_synonym template = "piece list"

text \<open>
  A request is the method of the HTTP client that was called, the URL, the body (the
  object that the script hands to \<open>JSON.stringify\<close>) and the params object. The method
  \<open>http.del\<close> is \<open>DEL\<close>.
\<close>

datatype verb = GET | POST | PUT | DEL

record params =
  headers :: "(string \<times> string) list"
  tags :: "(string \<times> string) list"

record request =
  verb :: verb
  url :: template
  req_body :: "(string \<times> template) list option"
  req_params :: "params option"

text \<open>The exceptions that reach the script: JavaScript's own, and the one k6's \<open>json\<close> raises.\<close>

datatype js_error = TypeError | JsonError

text \<open>What the trace records.\<close>

datatype action =
    Http request
  | Checked "(string \<times> bool) list"
  | TrendAdd string int
  | RateAdd string int
  | Log template
  | Sleep int

text \<open>
  The surroundings of the script. \<open>res_status\<close>, \<open>res_json\<close> and \<open>res_duration\<close> are what
  the script reads from a response: \<open>r.status\<close>, \<open>r.json()\<close> (selector \<open>None\<close>) or
  \<open>r.json('id')\<close> (selector \<open>Some ''id''\<close>), and \<open>r.timings.duration\<close>. Reading the JSON
  value can raise, for instance on a response that has no body.
\<close>

record ('w, 'r) k6 =
  env_BASE_URL :: "string option"
  http_send :: "request \<Rightarrow> 'w \<Rightarrow> 'r \<times> 'w"
  res_status :: "'r \<Rightarrow> int"
  res_json :: "'r \<Rightarrow> string option \<Rightarrow> js_error + jsval"
  res_duration :: "'r \<Rightarrow> int"
  date_now :: "'w \<Rightarrow> int \<times> 'w"
  sleep_for :: "int \<Rightarrow> 'w \<Rightarrow> 'w"

text \<open>A virtual user at work: the world and the trace so far.\<close>

type_synonym 'w vu = "'w \<times> action list"

subsection \<open>Statements that can raise\<close>

text \<open>
  A statement takes the virtual user's state and gives a value or an exception, and the
  state it leaves. \<open>and_then\<close> is the semicolon: the second statement runs only if the
  first one did not raise. \<open>ok\<close> is a statement that cannot raise.
\<close>

definition and_then ::
  "('s \<Rightarrow> (js_error + 'a) \<times> 's) \<Rightarrow> ('a \<Rightarrow> 's \<Rightarrow> (js_error + 'b) \<times> 's) \<Rightarrow>
   's \<Rightarrow> (js_error + 'b) \<times> 's" where
  "and_then m f st = (case m st of (Inl e, st') \<Rightarrow> (Inl e, st') | (Inr a, st') \<Rightarrow> f a st')"

definition ok :: "('s \<Rightarrow> 'a \<times> 's) \<Rightarrow> 's \<Rightarrow> (js_error + 'a) \<times> 's" where
  "ok m st = (case m st of (a, st') \<Rightarrow> (Inr a, st'))"

definition give :: "js_error + 'a \<Rightarrow> 's \<Rightarrow> (js_error + 'a) \<times> 's" where
  "give v st = (v, st)"

subsection \<open>The primitives the script calls\<close>

text \<open>
  Writing a property of an object: an existing key keeps its place, a new key goes to
  the end. \<open>taggedParams\<close> copies \<open>extra\<close> and sets \<open>tags.name\<close>.
\<close>

fun set_prop :: "string \<Rightarrow> 'a \<Rightarrow> (string \<times> 'a) list \<Rightarrow> (string \<times> 'a) list" where
  "set_prop k v [] = [(k, v)]"
| "set_prop k v ((k', v') # ps) = (if k' = k then (k, v) # ps else (k', v') # set_prop k v ps)"

definition taggedParams :: "string \<Rightarrow> params \<Rightarrow> params" where
  "taggedParams nm extra = extra\<lparr>tags := set_prop ''name'' nm (tags extra)\<rparr>"

definition BASE_URL :: "('w, 'r) k6 \<Rightarrow> string" where
  "BASE_URL env =
     (case env_BASE_URL env of
        None \<Rightarrow> ''http://localhost:3001''
      | Some s \<Rightarrow> if s = [] then ''http://localhost:3001'' else s)"

text \<open>The HTTP client: the request goes to the server and onto the trace.\<close>

definition http_request :: "('w, 'r) k6 \<Rightarrow> request \<Rightarrow> 'w vu \<Rightarrow> 'r \<times> 'w vu" where
  "http_request env rq st =
     (case st of (w, tr) \<Rightarrow>
        (case http_send env rq w of (rs, w') \<Rightarrow> (rs, (w', tr @ [Http rq]))))"

definition http_get ::
  "('w, 'r) k6 \<Rightarrow> template \<Rightarrow> params option \<Rightarrow> 'w vu \<Rightarrow> 'r \<times> 'w vu" where
  "http_get env u ps st =
     http_request env \<lparr>verb = GET, url = u, req_body = None, req_params = ps\<rparr> st"

definition http_post ::
  "('w, 'r) k6 \<Rightarrow> template \<Rightarrow> (string \<times> template) list \<Rightarrow> params option \<Rightarrow> 'w vu \<Rightarrow>
   'r \<times> 'w vu" where
  "http_post env u b ps st =
     http_request env \<lparr>verb = POST, url = u, req_body = Some b, req_params = ps\<rparr> st"

definition http_put ::
  "('w, 'r) k6 \<Rightarrow> template \<Rightarrow> (string \<times> template) list \<Rightarrow> params option \<Rightarrow> 'w vu \<Rightarrow>
   'r \<times> 'w vu" where
  "http_put env u b ps st =
     http_request env \<lparr>verb = PUT, url = u, req_body = Some b, req_params = ps\<rparr> st"

definition http_del ::
  "('w, 'r) k6 \<Rightarrow> template \<Rightarrow> params option \<Rightarrow> 'w vu \<Rightarrow> 'r \<times> 'w vu" where
  "http_del env u ps st =
     http_request env \<lparr>verb = DEL, url = u, req_body = None, req_params = ps\<rparr> st"

definition Date_now :: "('w, 'r) k6 \<Rightarrow> 'w vu \<Rightarrow> int \<times> 'w vu" where
  "Date_now env st = (case st of (w, tr) \<Rightarrow> (case date_now env w of (t, w') \<Rightarrow> (t, (w', tr))))"

text \<open>
  \<open>check\<close> calls the predicates of the set in order and records the result of each. A
  predicate that raises is recorded as failed, and its exception leaves \<open>check\<close> at
  once. Otherwise \<open>check\<close> returns whether all results are true.
\<close>

fun check_each ::
  "'r \<Rightarrow> (string \<times> ('r \<Rightarrow> js_error + bool)) list \<Rightarrow> (string \<times> bool) list \<Rightarrow>
   js_error option \<times> (string \<times> bool) list" where
  "check_each r [] results = (None, results)"
| "check_each r ((nm, p) # sets) results =
     (case p r of
        Inl e \<Rightarrow> (Some e, results @ [(nm, False)])
      | Inr b \<Rightarrow> check_each r sets (results @ [(nm, b)]))"

definition check ::
  "'r \<Rightarrow> (string \<times> ('r \<Rightarrow> js_error + bool)) list \<Rightarrow> 'w vu \<Rightarrow> (js_error + bool) \<times> 'w vu" where
  "check r sets st =
     (case st of (w, tr) \<Rightarrow>
        (case check_each r sets [] of
           (None, results) \<Rightarrow> (Inr (list_all snd results), (w, tr @ [Checked results]))
         | (Some e, results) \<Rightarrow> (Inl e, (w, tr @ [Checked results]))))"

text \<open>
  \<open>emit\<close> appends one action (a metric sample or a log line), \<open>sleep\<close> lets the world
  pass the time, and \<open>group\<close> runs its body (the name only labels the metrics).
\<close>

definition emit :: "action \<Rightarrow> 'w vu \<Rightarrow> unit \<times> 'w vu" where
  "emit a st = (case st of (w, tr) \<Rightarrow> ((), (w, tr @ [a])))"

definition sleep :: "('w, 'r) k6 \<Rightarrow> int \<Rightarrow> 'w vu \<Rightarrow> unit \<times> 'w vu" where
  "sleep env t st = (case st of (w, tr) \<Rightarrow> ((), (sleep_for env t w, tr @ [Sleep t])))"

definition group ::
  "string \<Rightarrow> ('w vu \<Rightarrow> (js_error + 'a) \<times> 'w vu) \<Rightarrow> 'w vu \<Rightarrow> (js_error + 'a) \<times> 'w vu" where
  "group nm f st = f st"

text \<open>
  \<open>Array.isArray\<close>, and reading the property \<open>id\<close> of a value, as in \<open>setupUser.id\<close>: a
  \<open>TypeError\<close> on \<open>undefined\<close> and \<open>null\<close>, \<open>undefined\<close> on a value without such a
  property.
\<close>

definition isArray :: "jsval \<Rightarrow> bool" where
  "isArray v = (case v of JArray _ \<Rightarrow> True | _ \<Rightarrow> False)"

definition get_id :: "jsval \<Rightarrow> js_error + jsval" where
  "get_id v =
     (case v of
        JUndefined \<Rightarrow> Inl TypeError
      | JNull \<Rightarrow> Inl TypeError
      | JObject ps \<Rightarrow> Inr (case map_of ps ''id'' of None \<Rightarrow> JUndefined | Some x \<Rightarrow> x)
      | _ \<Rightarrow> Inr JUndefined)"

text \<open>A predicate on the JSON value that \<open>r.json(...)\<close> gives; it raises when that raises.\<close>

definition on_json ::
  "('w, 'r) k6 \<Rightarrow> string option \<Rightarrow> (jsval \<Rightarrow> bool) \<Rightarrow> 'r \<Rightarrow> js_error + bool" where
  "on_json env sel p r = (case res_json env r sel of Inl e \<Rightarrow> Inl e | Inr v \<Rightarrow> Inr (p v))"

subsection \<open>The script\<close>

text \<open>What \<open>setup\<close> returns and the other two functions receive.\<close>

record data =
  setupUserId :: jsval

text \<open>
  The exported function \<open>setup\<close>; its name is a keyword of Isabelle, hence
  \<open>setup_function\<close>.
\<close>

definition setup_function :: "('w, 'r) k6 \<Rightarrow> 'w vu \<Rightarrow> (js_error + data) \<times> 'w vu" where
  "setup_function env =
     and_then (ok (http_get env [Val (JStr (BASE_URL env)), Lit ''/users''] None)) (\<lambda>res.
     and_then (check res [(''setup: API is reachable'', \<lambda>r. Inr (res_status env r = 200))]) (\<lambda>_.
     let payload = [(''name'', [Lit ''Setup User'']), (''email'', [Lit ''setup@example.com''])];
         params = \<lparr>headers = [(''Content-Type'', ''application/json'')], tags = []\<rparr>
     in
     and_then (ok (http_post env [Val (JStr (BASE_URL env)), Lit ''/users''] payload (Some params)))
       (\<lambda>createRes.
     and_then (give (res_json env createRes None)) (\<lambda>setupUser.
     and_then (give (get_id setupUser)) (\<lambda>i.
     and_then (ok (emit (Log [Lit ''Setup: created user #'', Val i, Lit '' for write tests'']))) (\<lambda>_.
     give (Inr \<lparr>setupUserId = i\<rparr>)))))))"

text \<open>
  The default export, an anonymous function, is \<open>default_function\<close>; the bodies of its
  two groups are \<open>read_operations\<close> and \<open>write_operations\<close>. The second one uses the
  variable \<open>params\<close> of the enclosing function, which is an argument here.
\<close>

definition read_operations :: "('w, 'r) k6 \<Rightarrow> 'w vu \<Rightarrow> (js_error + unit) \<times> 'w vu" where
  "read_operations env =
     and_then (ok (http_get env [Val (JStr (BASE_URL env)), Lit ''/users'']
                     (Some (taggedParams ''GET /users'' \<lparr>headers = [], tags = []\<rparr>)))) (\<lambda>listRes.
     and_then (check listRes
                 [(''GET /users returns 200'', \<lambda>r. Inr (res_status env r = 200)),
                  (''GET /users returns array'', on_json env None isArray)]) (\<lambda>_.
     and_then (ok (emit (TrendAdd ''user_list_duration'' (res_duration env listRes)))) (\<lambda>_.
     and_then (ok (http_get env [Val (JStr (BASE_URL env)), Lit ''/users/1'']
                     (Some (taggedParams ''GET /users/:id'' \<lparr>headers = [], tags = []\<rparr>)))) (\<lambda>getRes.
     and_then (check getRes
                 [(''GET /users/1 returns 200'', \<lambda>r. Inr (res_status env r = 200)),
                  (''GET /users/1 has correct id'', on_json env (Some ''id'') (\<lambda>v. v = JNum 1))])
       (\<lambda>_.
     give (Inr ()))))))"

definition write_operations ::
  "('w, 'r) k6 \<Rightarrow> params \<Rightarrow> data \<Rightarrow> 'w vu \<Rightarrow> (js_error + unit) \<times> 'w vu" where
  "write_operations env params data =
     and_then (ok (Date_now env)) (\<lambda>t1.
     and_then (ok (Date_now env)) (\<lambda>t2.
     let createPayload =
           [(''name'', [Lit ''User '', Val (JNum t1)]),
            (''email'', [Lit ''user-'', Val (JNum t2), Lit ''@test.com''])]
     in
     and_then (ok (http_post env [Val (JStr (BASE_URL env)), Lit ''/users''] createPayload
                     (Some (taggedParams ''POST /users'' params)))) (\<lambda>createRes.
     and_then (check createRes
                 [(''POST /users returns 201'', \<lambda>r. Inr (res_status env r = 201)),
                  (''POST /users returns id'', on_json env (Some ''id'') (\<lambda>v. v \<noteq> JUndefined))])
       (\<lambda>created.
     and_then (ok (emit (RateAdd ''user_creation_success'' (if created then 1 else 0)))) (\<lambda>_.
     and_then
       (if truthy (setupUserId data) then
          and_then (ok (Date_now env)) (\<lambda>t3.
          let updatePayload = [(''name'', [Lit ''Updated '', Val (JNum t3)])]
          in
          and_then (ok (http_put env
                          [Val (JStr (BASE_URL env)), Lit ''/users/'', Val (setupUserId data)]
                          updatePayload (Some (taggedParams ''PUT /users/:id'' params))))
            (\<lambda>updateRes.
          and_then (check updateRes
                      [(''PUT /users/:id returns 200'', \<lambda>r. Inr (res_status env r = 200))]) (\<lambda>_.
          give (Inr ()))))
        else give (Inr ())) (\<lambda>_.
     and_then
       (if created then
          and_then (give (res_json env createRes (Some ''id''))) (\<lambda>v. give (Inr (truthy v)))
        else give (Inr False)) (\<lambda>go.
     if go then
       and_then (give (res_json env createRes (Some ''id''))) (\<lambda>newId.
       and_then (ok (http_del env [Val (JStr (BASE_URL env)), Lit ''/users/'', Val newId]
                       (Some (taggedParams ''DELETE /users/:id'' \<lparr>headers = [], tags = []\<rparr>))))
         (\<lambda>deleteRes.
       and_then (check deleteRes
                   [(''DELETE /users/:id returns 200'', \<lambda>r. Inr (res_status env r = 200))]) (\<lambda>_.
       give (Inr ()))))
     else give (Inr ()))))))))"

definition default_function ::
  "('w, 'r) k6 \<Rightarrow> data \<Rightarrow> 'w vu \<Rightarrow> (js_error + unit) \<times> 'w vu" where
  "default_function env data =
     (let params = \<lparr>headers = [(''Content-Type'', ''application/json'')], tags = []\<rparr>
      in
      and_then (group ''Read Operations'' (read_operations env)) (\<lambda>_.
      and_then (group ''Write Operations'' (write_operations env params data)) (\<lambda>_.
      ok (sleep env 1))))"






subsection \<open>Two servers\<close>



text \<open>
  A statement appends to the trace when what it does does not depend on the trace it
  finds: run on a longer trace, it gives the same value and the same world, and leaves
  the trace it found followed by what it leaves on the empty one.
\<close>

definition appends :: "('w vu \<Rightarrow> 'a \<times> 'w vu) \<Rightarrow> bool" where
  "appends f \<longleftrightarrow>
     (\<forall>w tr. f (w, tr) =
        (fst (f (w, [])), fst (snd (f (w, []))), tr @ snd (snd (f (w, [])))))"

section \<open>Array primitives: what they compute\<close>

text \<open>
  The position of the first element that satisfies a predicate is the length of the
  longest prefix on which it fails.
\<close>

lemma findIndex_from_eq:
  "findIndex_from P k xs =
     (if \<exists>x\<in>set xs. P x then k + int (length (takeWhile (\<lambda>x. \<not> P x) xs)) else -1)"
  by (induction xs arbitrary: k) auto

lemma findIndex_eq:
  "findIndex P xs =
     (if \<exists>x\<in>set xs. P x then int (length (takeWhile (\<lambda>x. \<not> P x) xs)) else -1)"
  by (simp add: findIndex_def findIndex_from_eq)

lemma find_eq:
  "List.find P xs =
     (if \<exists>x\<in>set xs. P x then Some (xs ! length (takeWhile (\<lambda>x. \<not> P x) xs)) else None)"
  by (induction xs) auto

lemma first_at_less:
  "\<exists>x\<in>set xs. P x \<Longrightarrow> length (takeWhile (\<lambda>x. \<not> P x) xs) < length xs"
  by (induction xs) auto

lemma first_at_holds:
  "\<exists>x\<in>set xs. P x \<Longrightarrow> P (xs ! length (takeWhile (\<lambda>x. \<not> P x) xs))"
  by (induction xs) auto

lemma first_at_least:
  "j < length (takeWhile (\<lambda>x. \<not> P x) xs) \<Longrightarrow> \<not> P (xs ! j)"
proof (induction xs arbitrary: j)
  case Nil
  then show ?case by simp
next
  case (Cons x xs)
  then show ?case by (cases j) (auto split: if_splits)
qed

lemma splice_array_one:
  "k < length xs \<Longrightarrow> splice_array xs (int k) 1 = take k xs @ drop (Suc k) xs"
  by (simp add: splice_array_def Let_def min_def max_def nat_add_distrib)

section \<open>The methods on present and absent ids\<close>

text \<open>
  An id is present when some record of the array carries it. On an absent id the three
  looking-up methods throw and change nothing; on a present id they act on the first
  record that carries it.
\<close>

lemma findOne_absent: "i \<notin> set (ids s) \<Longrightarrow> findOne s i = Inl (NotFoundException i)"
  by (auto simp: findOne_def find_eq)

lemma findOne_present:
  "i \<in> set (ids s) \<Longrightarrow>
   findOne s i = Inr (users s ! length (takeWhile (\<lambda>u. id_user u \<noteq> i) (users s)))"
  by (auto simp: findOne_def find_eq)

lemma remove_absent: "i \<notin> set (ids s) \<Longrightarrow> remove s i = (Inl (NotFoundException i), s)"
  by (auto simp: remove_def findIndex_eq)

lemma remove_present:
  assumes "i \<in> set (ids s)"
  shows "remove s i =
    (Inr (), s\<lparr>users := take (length (takeWhile (\<lambda>u. id_user u \<noteq> i) (users s))) (users s)
                       @ drop (Suc (length (takeWhile (\<lambda>u. id_user u \<noteq> i) (users s)))) (users s)\<rparr>)"
proof -
  from assms have ex: "\<exists>u\<in>set (users s). id_user u = i" by auto
  then have "length (takeWhile (\<lambda>u. id_user u \<noteq> i) (users s)) < length (users s)"
    using first_at_less [of "users s" "\<lambda>u. id_user u = i"] by simp
  with ex show ?thesis
    by (simp add: remove_def findIndex_eq splice_array_one)
qed

lemma update_absent: "i \<notin> set (ids s) \<Longrightarrow> update s i dto = (Inl (NotFoundException i), s)"
  by (simp add: update_def findOne_absent)

lemma update_present:
  assumes "i \<in> set (ids s)"
  shows "update s i dto =
    (Inr (assign (users s ! length (takeWhile (\<lambda>u. id_user u \<noteq> i) (users s))) dto),
     s\<lparr>users := (users s)[length (takeWhile (\<lambda>u. id_user u \<noteq> i) (users s)) :=
          assign (users s ! length (takeWhile (\<lambda>u. id_user u \<noteq> i) (users s))) dto]\<rparr>)"
proof -
  from assms have ex: "\<exists>u\<in>set (users s). id_user u = i" by auto
  then show ?thesis
    by (simp add: update_def findOne_present [OF assms] findIndex_eq Let_def)
qed

lemma id_user_assign:
  "id_user (assign u dto) = (case update_id dto of None \<Rightarrow> id_user u | Some j \<Rightarrow> j)"
  by (simp add: assign_def)

lemma ids_update: "update_id dto = None \<Longrightarrow> ids (snd (update s i dto)) = ids s"
proof (cases "i \<in> set (ids s)")
  case True
  then have "\<exists>u\<in>set (users s). id_user u = i" by auto
  then have "length (takeWhile (\<lambda>u. id_user u \<noteq> i) (users s)) < length (users s)"
    using first_at_less [of "users s" "\<lambda>u. id_user u = i"] by simp
  moreover assume "update_id dto = None"
  ultimately show ?thesis
    by (simp add: update_present [OF True] map_update id_user_assign list_update_same_conv)
next
  case False
  then show ?thesis by (simp add: update_absent)
qed

section \<open>The invariant holds in every state\<close>

lemma snd_exec:
  "snd (exec List s) = s"
  "snd (exec (Get i) s) = s"
  "snd (exec (Create cdto) s) = snd (create s cdto)"
  "snd (exec (Update i dto) s) = snd (update s i dto)"
  "snd (exec (Delete i) s) = snd (remove s i)"
  by (simp_all split: sum.splits prod.splits)

declare exec.simps [simp del]

lemma invariant_initial: "invariant initial_service"
  by (simp add: invariant_def initial_service_def)

lemma increment_below: "n < 2 ^ 53 \<Longrightarrow> increment n = n + 1"
  by (simp add: increment_def)

lemma increment_stuck: "increment (2 ^ 53) = 2 ^ 53"
  by (simp add: increment_def)

lemma invariant_create:
  "invariant s \<Longrightarrow> create_id dto = None \<Longrightarrow> nextId s < 2 ^ 53 \<Longrightarrow>
   invariant (snd (create s dto))"
  by (auto simp: invariant_def create_def increment_def Let_def sorted_wrt_append)

lemma nextId_update: "nextId (snd (update s i dto)) = nextId s"
  by (cases "i \<in> set (ids s)") (simp_all add: update_present update_absent)

lemma nextId_remove: "nextId (snd (remove s i)) = nextId s"
  by (cases "i \<in> set (ids s)") (simp_all add: remove_present remove_absent)

lemma invariant_update:
  "invariant s \<Longrightarrow> update_id dto = None \<Longrightarrow> invariant (snd (update s i dto))"
proof -
  assume inv: "invariant s" and "update_id dto = None"
  then have eq: "ids (snd (update s i dto)) = ids s" by (simp add: ids_update)
  have "\<forall>j\<in>set (ids (snd (update s i dto))). 0 < j \<and> j < nextId s"
    using inv unfolding eq invariant_def by auto
  then have "\<forall>u\<in>set (users (snd (update s i dto))). 0 < id_user u \<and> id_user u < nextId s"
    by auto
  with inv eq show ?thesis
    unfolding invariant_def by (simp add: nextId_update)
qed

lemma sorted_wrt_remove_nth:
  "sorted_wrt R xs \<Longrightarrow> sorted_wrt R (take k xs @ drop (Suc k) xs)"
proof -
  assume "sorted_wrt R xs"
  then have "sorted_wrt R (take k xs @ drop k xs)" by simp
  then have "sorted_wrt R (take k xs) \<and>
      (\<forall>x\<in>set (take k xs). \<forall>y\<in>set (drop k xs). R x y)"
    unfolding sorted_wrt_append by blast
  moreover have "sorted_wrt R (drop (Suc k) xs)"
    using \<open>sorted_wrt R xs\<close> by (rule sorted_wrt_drop)
  moreover have "set (drop (Suc k) xs) \<subseteq> set (drop k xs)"
    by (rule set_drop_subset_set_drop) simp
  ultimately show ?thesis
    by (auto simp: sorted_wrt_append)
qed

lemma invariant_remove: "invariant s \<Longrightarrow> invariant (snd (remove s i))"
proof (cases "i \<in> set (ids s)")
  case False
  assume "invariant s"
  with False show ?thesis by (simp add: remove_absent)
next
  case True
  assume inv: "invariant s"
  let ?k = "length (takeWhile (\<lambda>u. id_user u \<noteq> i) (users s))"
  have "set (take ?k (users s) @ drop (Suc ?k) (users s)) \<subseteq> set (users s)"
    by (auto dest: in_set_takeD in_set_dropD)
  moreover have "sorted_wrt (<) (take ?k (ids s) @ drop (Suc ?k) (ids s))"
    using inv by (simp add: invariant_def sorted_wrt_remove_nth)
  ultimately show ?thesis
    using inv by (auto simp: invariant_def remove_present [OF True] take_map drop_map)
qed

lemma invariant_exec: "invariant s \<Longrightarrow> regular s x \<Longrightarrow> invariant (snd (exec x s))"
  by (cases x) (simp_all add: snd_exec invariant_create invariant_update invariant_remove)

lemma invariant_steps: "invariant s \<Longrightarrow> regular_from s xs \<Longrightarrow> invariant (steps s xs)"
  by (induction xs arbitrary: s) (simp_all add: invariant_exec)

lemma invariant_run: "regular_from initial_service xs \<Longrightarrow> invariant (run xs)"
  by (simp add: run_def invariant_steps invariant_initial)

lemma invariant_distinct: "invariant s \<Longrightarrow> distinct (ids s)"
  unfolding invariant_def by (simp add: strict_sorted_iff)

section \<open>What the methods leave behind\<close>

lemma first_index_ids:
  "length (takeWhile (\<lambda>u. id_user u \<noteq> i) xs) = length (takeWhile (\<lambda>j. j \<noteq> i) (map id_user xs))"
  by (induction xs) auto

lemma first_index_less:
  "i \<in> set (ids s) \<Longrightarrow> length (takeWhile (\<lambda>u. id_user u \<noteq> i) (users s)) < length (users s)"
  using first_at_less [of "users s" "\<lambda>u. id_user u = i"] by auto

lemma first_index_id:
  "i \<in> set (ids s) \<Longrightarrow> id_user (users s ! length (takeWhile (\<lambda>u. id_user u \<noteq> i) (users s))) = i"
  using first_at_holds [of "users s" "\<lambda>u. id_user u = i"] by auto

lemma first_index_least:
  "j < length (takeWhile (\<lambda>u. id_user u \<noteq> i) (users s)) \<Longrightarrow> id_user (users s ! j) \<noteq> i"
  using first_at_least [of j "\<lambda>u. id_user u = i" "users s"] by simp

lemma ids_update_same:
  assumes "i \<in> set (ids s)" and "update_id dto = Some i"
  shows "ids (snd (update s i dto)) = ids s"
proof -
  let ?k = "length (takeWhile (\<lambda>u. id_user u \<noteq> i) (users s))"
  have "?k < length (users s)" using assms(1) by (rule first_index_less)
  moreover have "id_user (users s ! ?k) = i" using assms(1) by (rule first_index_id)
  ultimately show ?thesis
    using assms(2)
    by (simp add: update_present [OF assms(1)] map_update id_user_assign list_update_same_conv)
qed

lemma findOne_after_update:
  assumes "i \<in> set (ids s)" and "update_id dto = None \<or> update_id dto = Some i"
  shows "findOne (snd (update s i dto)) i = fst (update s i dto)"
proof -
  let ?k = "length (takeWhile (\<lambda>u. id_user u \<noteq> i) (users s))"
  let ?s' = "snd (update s i dto)"
  have ids': "ids ?s' = ids s"
    using assms ids_update [of dto s i] ids_update_same [of i s dto] by blast
  with assms have pres: "i \<in> set (ids ?s')" by simp
  have k': "length (takeWhile (\<lambda>u. id_user u \<noteq> i) (users ?s')) = ?k"
    by (simp only: first_index_ids ids')
  have "?k < length (users s)" using assms(1) by (rule first_index_less)
  then have nth: "users ?s' ! ?k = assign (users s ! ?k) dto"
    by (simp add: update_present [OF assms(1)])
  have "findOne ?s' i = Inr (users ?s' ! length (takeWhile (\<lambda>u. id_user u \<noteq> i) (users ?s')))"
    using pres by (rule findOne_present)
  also have "\<dots> = Inr (assign (users s ! ?k) dto)"
    by (simp only: k' nth)
  also have "\<dots> = fst (update s i dto)"
    by (simp add: update_present [OF assms(1)])
  finally show ?thesis .
qed

lemma find_snoc:
  "\<forall>x\<in>set xs. \<not> P x \<Longrightarrow> P y \<Longrightarrow> List.find P (xs @ [y]) = Some y"
  by (induction xs) auto

lemma findOne_after_create:
  assumes "invariant s" and "create_id dto = None"
  shows "findOne (snd (create s dto)) (id_user (fst (create s dto))) = Inr (fst (create s dto))"
proof -
  have "\<forall>u\<in>set (users s). \<not> id_user u = nextId s"
    using assms(1) by (auto simp: invariant_def)
  then show ?thesis
    using assms(2) by (simp add: findOne_def create_def Let_def find_snoc)
qed

lemma not_in_remove_nth:
  assumes "distinct xs" "k < length xs"
  shows "xs ! k \<notin> set (take k xs @ drop (Suc k) xs)"
proof -
  have "xs = take k xs @ xs ! k # drop (Suc k) xs"
    using assms(2) by (rule id_take_nth_drop)
  then have "distinct (take k xs @ xs ! k # drop (Suc k) xs)"
    using assms(1) by simp
  then show ?thesis by auto
qed

lemma findOne_after_remove:
  assumes "invariant s" "i \<in> set (ids s)"
  shows "findOne (snd (remove s i)) i = Inl (NotFoundException i)"
proof -
  let ?k = "length (takeWhile (\<lambda>u. id_user u \<noteq> i) (users s))"
  have d: "distinct (ids s)" using assms(1) by (rule invariant_distinct)
  have k: "?k < length (ids s)" using first_index_less [OF assms(2)] by simp
  have "ids s ! ?k = i" using first_index_id [OF assms(2)] k by simp
  with not_in_remove_nth [OF d k]
  have "i \<notin> set (take ?k (ids s) @ drop (Suc ?k) (ids s))" by simp
  then have "i \<notin> set (ids (snd (remove s i)))"
    by (simp add: remove_present [OF assms(2)] take_map drop_map)
  then show ?thesis by (rule findOne_absent)
qed

lemma length_after_remove:
  assumes "i \<in> set (ids s)"
  shows "length (users (snd (remove s i))) + 1 = length (users s)"
  using first_index_less [OF assms] by (simp add: remove_present [OF assms])

lemma nextId_exec:
  "nextId (snd (exec x s)) = (case x of Create _ \<Rightarrow> increment (nextId s) | _ \<Rightarrow> nextId s)"
  by (cases x) (simp_all add: snd_exec nextId_update nextId_remove create_def Let_def)

lemma created_ids_eq:
  "regular_from s xs \<Longrightarrow>
   created_ids s xs = map (\<lambda>k. nextId s + int k) [0..<length (created_ids s xs)]"
proof (induction xs arbitrary: s)
  case Nil
  show ?case by simp
next
  case (Cons x xs)
  let ?s' = "snd (exec x s)"
  let ?n = "length (created_ids ?s' xs)"
  from Cons.prems have rx: "regular s x" and rxs: "regular_from ?s' xs" by simp_all
  have IH: "created_ids ?s' xs = map (\<lambda>k. nextId ?s' + int k) [0..<?n]"
    using rxs by (rule Cons.IH)
  show ?case
  proof (cases "\<exists>dto. x = Create dto")
    case True
    then obtain dto where x: "x = Create dto" ..
    with rx have r: "create_id dto = None" "nextId s < 2 ^ 53" by simp_all
    have nx: "nextId ?s' = nextId s + 1" by (simp add: x nextId_exec increment_below [OF r(2)])
    have "map (\<lambda>k. nextId s + int k) [0..<Suc ?n] =
          nextId s # map (\<lambda>k. nextId s + int (Suc k)) [0..<?n]"
      by (simp only: upt_conv_Cons [of 0 "Suc ?n"] map_Suc_upt [symmetric] list.map map_map o_def)
         simp
    also have "\<dots> = nextId s # map (\<lambda>k. nextId ?s' + int k) [0..<?n]"
      by (simp add: nx add.assoc)
    also have "\<dots> = nextId s # created_ids ?s' xs"
      using IH by simp
    finally show ?thesis by (simp add: x create_def Let_def r)
  next
    case False
    then have "nextId ?s' = nextId s" and "created_ids s (x # xs) = created_ids ?s' xs"
      by (cases x; simp add: nextId_exec)+
    with IH show ?thesis by simp
  qed
qed

lemma created_ids_fresh:
  assumes "invariant s" and "regular_from s xs"
  shows "distinct (ids s @ created_ids s xs)"
proof -
  let ?n = "length (created_ids s xs)"
  have c: "created_ids s xs = map (\<lambda>k. nextId s + int k) [0..<?n]"
    using assms(2) by (rule created_ids_eq)
  have "inj_on (\<lambda>k. nextId s + int k) (set [0..<?n])"
    by (rule inj_onI) simp
  then have "distinct (map (\<lambda>k. nextId s + int k) [0..<?n])"
    by (simp add: distinct_map)
  then have d: "distinct (created_ids s xs)" using c by simp
  have "\<forall>j\<in>set (created_ids s xs). nextId s \<le> j"
  proof
    fix j assume "j \<in> set (created_ids s xs)"
    then have "j \<in> set (map (\<lambda>k. nextId s + int k) [0..<?n])" using c by simp
    then show "nextId s \<le> j" by auto
  qed
  moreover have "\<forall>j\<in>set (ids s). j < nextId s"
    using assms(1) by (auto simp: invariant_def)
  ultimately have "set (ids s) \<inter> set (created_ids s xs) = {}" by fastforce
  with d invariant_distinct [OF assms(1)] show ?thesis by simp
qed

section \<open>Sequences of requests, and a long regular one\<close>

lemma steps_append: "steps s (xs @ ys) = steps (steps s xs) ys"
  by (induction xs arbitrary: s) simp_all

lemma created_ids_append:
  "created_ids s (xs @ ys) = created_ids s xs @ created_ids (steps s xs) ys"
  by (induction xs arbitrary: s) simp_all

lemma regular_from_append:
  "regular_from s (xs @ ys) \<longleftrightarrow> regular_from s xs \<and> regular_from (steps s xs) ys"
  by (induction xs arbitrary: s) simp_all

lemma churn_Suc:
  "churn (Suc n) =
     churn n @ [Create \<lparr>create_id = None, create_name = ''X'', create_email = ''x@y.com''\<rparr>,
                Delete (4 + int n)]"
  by (simp add: churn_def)

lemma churn_round:
  assumes "0 \<le> k" and "4 + k < 2 ^ 53"
  shows "steps (initial_service\<lparr>nextId := 4 + k\<rparr>)
           [Create \<lparr>create_id = None, create_name = ''X'', create_email = ''x@y.com''\<rparr>,
            Delete (4 + k)] =
         initial_service\<lparr>nextId := 4 + k + 1\<rparr>"
  using assms
  by (simp add: exec.simps create_def remove_def findIndex_def splice_array_def
      initial_service_def increment_below Let_def)

lemma run_churn:
  "4 + int n \<le> 2 ^ 53 \<Longrightarrow> run (churn n) = initial_service\<lparr>nextId := 4 + int n\<rparr>"
proof (induction n)
  case 0
  show ?case by (simp add: run_def churn_def initial_service_def)
next
  case (Suc n)
  then have IH: "run (churn n) = initial_service\<lparr>nextId := 4 + int n\<rparr>"
    and b: "4 + int n < 2 ^ 53" by simp_all
  have "run (churn (Suc n)) =
      steps (run (churn n))
        [Create \<lparr>create_id = None, create_name = ''X'', create_email = ''x@y.com''\<rparr>,
         Delete (4 + int n)]"
    by (simp only: run_def churn_Suc steps_append)
  also have "\<dots> = initial_service\<lparr>nextId := 4 + int n + 1\<rparr>"
    unfolding IH using b by (intro churn_round) simp_all
  finally show ?case by (simp add: add.commute add.left_commute)
qed

lemma regular_churn: "4 + int n \<le> 2 ^ 53 \<Longrightarrow> regular_from initial_service (churn n)"
proof (induction n)
  case 0
  show ?case by (simp add: churn_def)
next
  case (Suc n)
  then have IH: "regular_from initial_service (churn n)"
    and b: "4 + int n < 2 ^ 53" by simp_all
  have r: "steps initial_service (churn n) = initial_service\<lparr>nextId := 4 + int n\<rparr>"
    using run_churn [of n] b by (simp add: run_def)
  show ?case
    using IH b by (simp add: churn_Suc regular_from_append r)
qed

lemma run_churn_full: "run (churn (2 ^ 53 - 4)) = initial_service\<lparr>nextId := 2 ^ 53\<rparr>"
  using run_churn [of "2 ^ 53 - 4"] by simp

section \<open>The claims about the service\<close>

text \<open>
  Claim C1, amended. The counter starts one past the number of seeds, whose ids are 1,
  2, 3. \<open>create\<close> returns the record it appends to the end of the array; the id of that
  record is the id of the body if the body has one and the value of the counter
  otherwise, and the counter advances by one as long as it is below \<open>2 ^ 53\<close>. So the
  first Create on the seeded service, with a body that has no id, returns id 4. Over any
  regular sequence of requests on the seeded service, deletions included, the ids handed
  out by the Create requests are 4, 5, 6 and so on in this order, and the seeds' ids and
  all the ids handed out are pairwise different.
\<close>

theorem create_assigns_next_id_while_regular:
  "nextId initial_service = int (length (users initial_service)) + 1 \<and>
   ids initial_service = [1, 2, 3] \<and>
   (create_id dto = None \<longrightarrow> id_user (fst (create initial_service dto)) = 4) \<and>
   fst (create s dto) =
     \<lparr>id_user = (case create_id dto of None \<Rightarrow> nextId s | Some j \<Rightarrow> j),
      name = create_name dto, email = create_email dto\<rparr> \<and>
   (nextId s < 2 ^ 53 \<longrightarrow> nextId (snd (create s dto)) = nextId s + 1) \<and>
   users (snd (create s dto)) = users s @ [fst (create s dto)] \<and>
   (regular_from initial_service xs \<longrightarrow>
      created_ids initial_service xs =
        map (\<lambda>k. 4 + int k) [0..<length (created_ids initial_service xs)] \<and>
      distinct (ids initial_service @ created_ids initial_service xs))"
proof (intro conjI impI)
  show "nextId initial_service = int (length (users initial_service)) + 1"
    by (simp add: initial_service_def)
  show "ids initial_service = [1, 2, 3]" by (simp add: initial_service_def)
  show "id_user (fst (create initial_service dto)) = 4" if "create_id dto = None"
    using that by (simp add: initial_service_def create_def Let_def)
  show "fst (create s dto) =
      \<lparr>id_user = (case create_id dto of None \<Rightarrow> nextId s | Some j \<Rightarrow> j),
       name = create_name dto, email = create_email dto\<rparr>"
    by (simp add: create_def Let_def)
  show "nextId (snd (create s dto)) = nextId s + 1" if "nextId s < 2 ^ 53"
    using that by (simp add: create_def Let_def increment_below)
  show "users (snd (create s dto)) = users s @ [fst (create s dto)]"
    by (simp add: create_def Let_def)
next
  assume r: "regular_from initial_service xs"
  have "nextId initial_service = 4" by (simp add: initial_service_def)
  with created_ids_eq [OF r]
  show "created_ids initial_service xs =
      map (\<lambda>k. 4 + int k) [0..<length (created_ids initial_service xs)]"
    by simp
  show "distinct (ids initial_service @ created_ids initial_service xs)"
    using invariant_initial r by (rule created_ids_fresh)
qed

theorem create_assigns_next_id_while_regular_witness:
  "regular_from initial_service
     [Create \<lparr>create_id = None, create_name = ''X'', create_email = ''x@y.com''\<rparr>, Delete 4,
      Create \<lparr>create_id = None, create_name = ''Y'', create_email = ''y@y.com''\<rparr>] \<and>
   id_user (fst (create initial_service
     \<lparr>create_id = None, create_name = ''X'', create_email = ''x@y.com''\<rparr>)) = 4 \<and>
   nextId (snd (create initial_service
     \<lparr>create_id = None, create_name = ''X'', create_email = ''x@y.com''\<rparr>)) = 5 \<and>
   created_ids initial_service
     [Create \<lparr>create_id = None, create_name = ''X'', create_email = ''x@y.com''\<rparr>, Delete 4,
      Create \<lparr>create_id = None, create_name = ''Y'', create_email = ''y@y.com''\<rparr>] = [4, 5] \<and>
   distinct (ids initial_service @ [4, 5])"
proof -
  let ?d = "\<lparr>create_id = None, create_name = ''X'', create_email = ''x@y.com''\<rparr>"
  let ?xs = "[Create ?d, Delete 4,
      Create \<lparr>create_id = None, create_name = ''Y'', create_email = ''y@y.com''\<rparr>]"
  have n: "nextId initial_service = 4" by (simp add: initial_service_def)
  have r: "regular_from initial_service ?xs"
    by (simp add: snd_exec nextId_remove create_def Let_def initial_service_def increment_def)
  have c: "created_ids initial_service ?xs = [4, 5]"
    by (simp add: snd_exec nextId_remove create_def Let_def initial_service_def increment_def)
  have b: "nextId initial_service < 2 ^ 53" by (simp add: n)
  note t = create_assigns_next_id_while_regular [of ?d initial_service ?xs]
  have i: "create_id ?d = None" by simp
  from t i have 1: "id_user (fst (create initial_service ?d)) = 4" by blast
  from t b have 2: "nextId (snd (create initial_service ?d)) = nextId initial_service + 1"
    by blast
  from t r have 3: "distinct (ids initial_service @ created_ids initial_service ?xs)"
    by blast
  from 2 n have 4: "nextId (snd (create initial_service ?d)) = 5" by simp
  from 3 c have 5: "distinct (ids initial_service @ [4, 5])" by simp
  from r 1 4 c 5 show ?thesis by blast
qed

text \<open>
  As the specification words it, for every sequence of requests, the property fails in
  two ways. A Create whose body has id 1 returns id 1, which a seed carries. And after
  \<open>churn (2 ^ 53 - 4)\<close>, a regular sequence that leaves the counter at \<open>2 ^ 53\<close>, two
  further Creates with bodies that have no id both return \<open>2 ^ 53\<close>, since the counter
  no longer advances.
\<close>

theorem create_reuses_id_counterexample:
  "\<not> distinct (ids initial_service @
       created_ids initial_service
         [Create \<lparr>create_id = Some 1, create_name = ''X'', create_email = ''x@y.com''\<rparr>]) \<and>
   regular_from initial_service (churn (2 ^ 53 - 4)) \<and>
   created_ids (run (churn (2 ^ 53 - 4)))
     [Create \<lparr>create_id = None, create_name = ''X'', create_email = ''x@y.com''\<rparr>,
      Create \<lparr>create_id = None, create_name = ''Y'', create_email = ''y@y.com''\<rparr>] =
     [2 ^ 53, 2 ^ 53] \<and>
   \<not> distinct (created_ids initial_service
       (churn (2 ^ 53 - 4) @
        [Create \<lparr>create_id = None, create_name = ''X'', create_email = ''x@y.com''\<rparr>,
         Create \<lparr>create_id = None, create_name = ''Y'', create_email = ''y@y.com''\<rparr>]))"
proof (intro conjI)
  show "\<not> distinct (ids initial_service @
       created_ids initial_service
         [Create \<lparr>create_id = Some 1, create_name = ''X'', create_email = ''x@y.com''\<rparr>])"
    by (simp add: initial_service_def create_def Let_def)
  show "regular_from initial_service (churn (2 ^ 53 - 4))"
    by (rule regular_churn) simp
  show c: "created_ids (run (churn (2 ^ 53 - 4)))
     [Create \<lparr>create_id = None, create_name = ''X'', create_email = ''x@y.com''\<rparr>,
      Create \<lparr>create_id = None, create_name = ''Y'', create_email = ''y@y.com''\<rparr>] =
     [2 ^ 53, 2 ^ 53]"
    by (simp only: run_churn_full) (simp add: snd_exec create_def Let_def increment_def)
  have "created_ids initial_service
       (churn (2 ^ 53 - 4) @
        [Create \<lparr>create_id = None, create_name = ''X'', create_email = ''x@y.com''\<rparr>,
         Create \<lparr>create_id = None, create_name = ''Y'', create_email = ''y@y.com''\<rparr>]) =
      created_ids initial_service (churn (2 ^ 53 - 4)) @ [2 ^ 53, 2 ^ 53]"
    using c by (simp only: created_ids_append run_def)
  then show "\<not> distinct (created_ids initial_service
       (churn (2 ^ 53 - 4) @
        [Create \<lparr>create_id = None, create_name = ''X'', create_email = ''x@y.com''\<rparr>,
         Create \<lparr>create_id = None, create_name = ''Y'', create_email = ''y@y.com''\<rparr>]))"
    by simp
qed

text \<open>
  Claim C2. In every state and for every id: if no record of the array carries the id,
  then \<open>findOne\<close>, \<open>update\<close> and \<open>remove\<close> each throw \<open>NotFoundException\<close> for that
  id, and the Get, Update and Delete requests fail with it (the exception type has no
  other value); if some record carries the id, none of the three throws.
\<close>

theorem not_found_exactly_on_absent_ids:
  "(i \<notin> set (ids s) \<longrightarrow>
      findOne s i = Inl (NotFoundException i) \<and>
      fst (update s i dto) = Inl (NotFoundException i) \<and>
      fst (remove s i) = Inl (NotFoundException i) \<and>
      fst (exec (Get i) s) = Failed (NotFoundException i) \<and>
      fst (exec (Update i dto) s) = Failed (NotFoundException i) \<and>
      fst (exec (Delete i) s) = Failed (NotFoundException i)) \<and>
   (i \<in> set (ids s) \<longrightarrow>
      (\<exists>u. findOne s i = Inr u \<and> fst (exec (Get i) s) = Record u) \<and>
      (\<exists>u. fst (update s i dto) = Inr u \<and> fst (exec (Update i dto) s) = Record u) \<and>
      fst (remove s i) = Inr () \<and> fst (exec (Delete i) s) = Done)"
proof (intro conjI impI)
  assume a: "i \<notin> set (ids s)"
  show "findOne s i = Inl (NotFoundException i)" using a by (rule findOne_absent)
  show "fst (update s i dto) = Inl (NotFoundException i)" by (simp add: update_absent [OF a])
  show "fst (remove s i) = Inl (NotFoundException i)" by (simp add: remove_absent [OF a])
  show "fst (exec (Get i) s) = Failed (NotFoundException i)"
    by (simp add: exec.simps findOne_absent [OF a])
  show "fst (exec (Update i dto) s) = Failed (NotFoundException i)"
    by (simp add: exec.simps update_absent [OF a])
  show "fst (exec (Delete i) s) = Failed (NotFoundException i)"
    by (simp add: exec.simps remove_absent [OF a])
next
  assume p: "i \<in> set (ids s)"
  show "\<exists>u. findOne s i = Inr u \<and> fst (exec (Get i) s) = Record u"
    by (simp add: exec.simps findOne_present [OF p])
  show "\<exists>u. fst (update s i dto) = Inr u \<and> fst (exec (Update i dto) s) = Record u"
    by (simp add: exec.simps update_present [OF p])
  show "fst (remove s i) = Inr ()" by (simp add: remove_present [OF p])
  show "fst (exec (Delete i) s) = Done" by (simp add: exec.simps remove_present [OF p])
qed

theorem not_found_exactly_on_absent_ids_witness:
  "999 \<notin> set (ids initial_service) \<and>
   findOne initial_service 999 = Inl (NotFoundException 999) \<and>
   fst (update initial_service 999 \<lparr>update_id = None, update_name = Some ''Zed'', update_email = None\<rparr>) =
     Inl (NotFoundException 999) \<and>
   fst (remove initial_service 999) = Inl (NotFoundException 999) \<and>
   2 \<in> set (ids initial_service) \<and>
   (\<exists>u. findOne initial_service 2 = Inr u) \<and>
   (\<exists>u. fst (update initial_service 2 \<lparr>update_id = None, update_name = Some ''Zed'', update_email = None\<rparr>) = Inr u) \<and>
   fst (remove initial_service 2) = Inr ()"
proof -
  have a: "999 \<notin> set (ids initial_service)" and p: "2 \<in> set (ids initial_service)"
    by (simp_all add: initial_service_def)
  from a p
    not_found_exactly_on_absent_ids
      [of 999 initial_service "\<lparr>update_id = None, update_name = Some ''Zed'', update_email = None\<rparr>"]
    not_found_exactly_on_absent_ids
      [of 2 initial_service "\<lparr>update_id = None, update_name = Some ''Zed'', update_email = None\<rparr>"]
  show ?thesis by blast
qed

text \<open>
  Claim C3. When the id is present, \<open>update\<close> acts on the first record \<open>u\<close> that carries
  it, at position \<open>k\<close>: the array afterwards differs from the array before at position
  \<open>k\<close> only, and the record there has, for each of id, name and email, the value of the
  body if the body has that property and the value of \<open>u\<close> otherwise. This record is what
  \<open>update\<close> returns, and it is what \<open>findOne\<close> finds afterwards under the same id when
  the body has no id or the id it has is that same id.
\<close>

theorem update_overwrites_named_fields_only:
  assumes "i \<in> set (ids s)"
  shows "\<exists>u u' k.
     findOne s i = Inr u \<and>
     k < length (users s) \<and> users s ! k = u \<and> (\<forall>j<k. id_user (users s ! j) \<noteq> i) \<and>
     update s i dto = (Inr u', s\<lparr>users := (users s)[k := u']\<rparr>) \<and>
     (update_id dto = None \<or> update_id dto = Some i \<longrightarrow>
        findOne (snd (update s i dto)) i = Inr u') \<and>
     id_user u' = (case update_id dto of None \<Rightarrow> id_user u | Some j \<Rightarrow> j) \<and>
     name u' = (case update_name dto of None \<Rightarrow> name u | Some n \<Rightarrow> n) \<and>
     email u' = (case update_email dto of None \<Rightarrow> email u | Some e \<Rightarrow> e)"
proof -
  let ?k = "length (takeWhile (\<lambda>u. id_user u \<noteq> i) (users s))"
  let ?u = "users s ! ?k"
  let ?u' = "assign ?u dto"
  have 1: "findOne s i = Inr ?u" using assms by (rule findOne_present)
  have 2: "?k < length (users s)" using assms by (rule first_index_less)
  have 3: "\<forall>j<?k. id_user (users s ! j) \<noteq> i" using first_index_least by blast
  have 4: "update s i dto = (Inr ?u', s\<lparr>users := (users s)[?k := ?u']\<rparr>)"
    using assms by (rule update_present)
  have f: "fst (update s i dto) = Inr ?u'" by (simp only: 4 fst_conv)
  have 5: "update_id dto = None \<or> update_id dto = Some i \<longrightarrow>
      findOne (snd (update s i dto)) i = Inr ?u'"
  proof
    assume "update_id dto = None \<or> update_id dto = Some i"
    with assms have "findOne (snd (update s i dto)) i = fst (update s i dto)"
      by (rule findOne_after_update)
    with f show "findOne (snd (update s i dto)) i = Inr ?u'" by simp
  qed
  have 6: "id_user ?u' = (case update_id dto of None \<Rightarrow> id_user ?u | Some j \<Rightarrow> j)"
    by (rule id_user_assign)
  have 7: "name ?u' = (case update_name dto of None \<Rightarrow> name ?u | Some n \<Rightarrow> n)"
    by (simp add: assign_def)
  have 8: "email ?u' = (case update_email dto of None \<Rightarrow> email ?u | Some e \<Rightarrow> e)"
    by (simp add: assign_def)
  from 1 2 3 4 5 6 7 8 show ?thesis by blast
qed

theorem update_overwrites_named_fields_only_witness:
  "2 \<in> set (ids initial_service) \<and>
   (\<exists>u u' k.
     findOne initial_service 2 = Inr u \<and>
     k < length (users initial_service) \<and> users initial_service ! k = u \<and>
     update initial_service 2 \<lparr>update_id = None, update_name = Some ''Zed'', update_email = None\<rparr> =
       (Inr u', initial_service\<lparr>users := (users initial_service)[k := u']\<rparr>) \<and>
     findOne
       (snd (update initial_service 2
              \<lparr>update_id = None, update_name = Some ''Zed'', update_email = None\<rparr>)) 2 = Inr u' \<and>
     id_user u' = id_user u \<and> name u' = ''Zed'' \<and> email u' = email u)"
proof -
  let ?d = "\<lparr>update_id = None, update_name = Some ''Zed'', update_email = None\<rparr>"
  have p: "2 \<in> set (ids initial_service)" by (simp add: initial_service_def)
  from update_overwrites_named_fields_only [OF p, of ?d]
  obtain u u' k where
    "findOne initial_service 2 = Inr u"
    "k < length (users initial_service)" "users initial_service ! k = u"
    "update initial_service 2 ?d =
       (Inr u', initial_service\<lparr>users := (users initial_service)[k := u']\<rparr>)"
    "update_id ?d = None \<or> update_id ?d = Some 2 \<longrightarrow>
       findOne (snd (update initial_service 2 ?d)) 2 = Inr u'"
    "id_user u' = (case update_id ?d of None \<Rightarrow> id_user u | Some j \<Rightarrow> j)"
    "name u' = (case update_name ?d of None \<Rightarrow> name u | Some n \<Rightarrow> n)"
    "email u' = (case update_email ?d of None \<Rightarrow> email u | Some e \<Rightarrow> e)"
    by blast
  then have
    "findOne initial_service 2 = Inr u \<and>
     k < length (users initial_service) \<and> users initial_service ! k = u \<and>
     update initial_service 2 ?d =
       (Inr u', initial_service\<lparr>users := (users initial_service)[k := u']\<rparr>) \<and>
     findOne (snd (update initial_service 2 ?d)) 2 = Inr u' \<and>
     id_user u' = id_user u \<and> name u' = ''Zed'' \<and> email u' = email u"
    by simp
  with p show ?thesis by blast
qed

text \<open>
  Claim C4, amended. In every state that the seeded service reaches by a regular
  sequence of requests, and for every id present there: \<open>remove\<close> succeeds, \<open>findOne\<close>
  on that id then throws \<open>NotFoundException\<close>, and \<open>findAll\<close> is one record shorter than
  before.
\<close>

theorem delete_then_get_fails_and_list_shrinks:
  assumes "regular_from initial_service xs" and "i \<in> set (ids (run xs))"
  shows "fst (remove (run xs) i) = Inr () \<and>
         findOne (snd (remove (run xs) i)) i = Inl (NotFoundException i) \<and>
         length (findAll (snd (remove (run xs) i))) + 1 = length (findAll (run xs))"
proof (intro conjI)
  show "fst (remove (run xs) i) = Inr ()" by (simp add: remove_present [OF assms(2)])
  have "invariant (run xs)" using assms(1) by (rule invariant_run)
  then show "findOne (snd (remove (run xs) i)) i = Inl (NotFoundException i)"
    using assms(2) by (rule findOne_after_remove)
  show "length (findAll (snd (remove (run xs) i))) + 1 = length (findAll (run xs))"
    unfolding findAll_def using assms(2) by (rule length_after_remove)
qed

theorem delete_then_get_fails_and_list_shrinks_witness:
  "regular_from initial_service
     [Create \<lparr>create_id = None, create_name = ''X'', create_email = ''x@y.com''\<rparr>] \<and>
   4 \<in> set (ids (run [Create \<lparr>create_id = None, create_name = ''X'', create_email = ''x@y.com''\<rparr>])) \<and>
   fst (remove (run [Create \<lparr>create_id = None, create_name = ''X'', create_email = ''x@y.com''\<rparr>]) 4) =
     Inr () \<and>
   findOne
     (snd (remove (run [Create \<lparr>create_id = None, create_name = ''X'', create_email = ''x@y.com''\<rparr>]) 4))
     4 = Inl (NotFoundException 4) \<and>
   length (findAll
     (snd (remove (run [Create \<lparr>create_id = None, create_name = ''X'', create_email = ''x@y.com''\<rparr>]) 4)))
     + 1 =
     length (findAll (run [Create \<lparr>create_id = None, create_name = ''X'', create_email = ''x@y.com''\<rparr>]))"
proof -
  let ?xs = "[Create \<lparr>create_id = None, create_name = ''X'', create_email = ''x@y.com''\<rparr>]"
  have r: "regular_from initial_service ?xs" by (simp add: initial_service_def)
  have p: "4 \<in> set (ids (run ?xs))"
    by (simp add: run_def exec.simps initial_service_def create_def Let_def)
  from r p delete_then_get_fails_and_list_shrinks [OF r p] show ?thesis by blast
qed

text \<open>
  Without the restriction to regular sequences the property fails: after a Create whose
  body has id 1, and after the two Creates that follow \<open>churn (2 ^ 53 - 4)\<close>, two records
  carry one id; \<open>remove\<close> takes the first of them out and \<open>findOne\<close> then returns the
  second.
\<close>

theorem get_after_delete_counterexample:
  "1 \<in> set (ids (run [Create \<lparr>create_id = Some 1, create_name = ''X'', create_email = ''x@y.com''\<rparr>])) \<and>
   fst (remove (run [Create \<lparr>create_id = Some 1, create_name = ''X'', create_email = ''x@y.com''\<rparr>]) 1) =
     Inr () \<and>
   findOne
     (snd (remove (run [Create \<lparr>create_id = Some 1, create_name = ''X'', create_email = ''x@y.com''\<rparr>]) 1))
     1 = Inr \<lparr>id_user = 1, name = ''X'', email = ''x@y.com''\<rparr> \<and>
   2 ^ 53 \<in> set (ids (run (churn (2 ^ 53 - 4) @
       [Create \<lparr>create_id = None, create_name = ''X'', create_email = ''x@y.com''\<rparr>,
        Create \<lparr>create_id = None, create_name = ''Y'', create_email = ''y@y.com''\<rparr>]))) \<and>
   fst (remove (run (churn (2 ^ 53 - 4) @
       [Create \<lparr>create_id = None, create_name = ''X'', create_email = ''x@y.com''\<rparr>,
        Create \<lparr>create_id = None, create_name = ''Y'', create_email = ''y@y.com''\<rparr>])) (2 ^ 53)) =
     Inr () \<and>
   findOne
     (snd (remove (run (churn (2 ^ 53 - 4) @
       [Create \<lparr>create_id = None, create_name = ''X'', create_email = ''x@y.com''\<rparr>,
        Create \<lparr>create_id = None, create_name = ''Y'', create_email = ''y@y.com''\<rparr>])) (2 ^ 53)))
     (2 ^ 53) = Inr \<lparr>id_user = 2 ^ 53, name = ''Y'', email = ''y@y.com''\<rparr>"
proof -
  let ?ys = "[Create \<lparr>create_id = None, create_name = ''X'', create_email = ''x@y.com''\<rparr>,
        Create \<lparr>create_id = None, create_name = ''Y'', create_email = ''y@y.com''\<rparr>]"
  have a: "run [Create \<lparr>create_id = Some 1, create_name = ''X'', create_email = ''x@y.com''\<rparr>] =
      \<lparr>nextId = 5,
       users = users initial_service @ [\<lparr>id_user = 1, name = ''X'', email = ''x@y.com''\<rparr>]\<rparr>"
    by (simp add: run_def exec.simps initial_service_def create_def increment_def Let_def)
  have "run (churn (2 ^ 53 - 4) @ ?ys) = steps (initial_service\<lparr>nextId := 2 ^ 53\<rparr>) ?ys"
    by (simp only: run_def steps_append run_churn_full [unfolded run_def])
  also have "\<dots> =
      \<lparr>nextId = 2 ^ 53,
       users = users initial_service @
         [\<lparr>id_user = 2 ^ 53, name = ''X'', email = ''x@y.com''\<rparr>,
          \<lparr>id_user = 2 ^ 53, name = ''Y'', email = ''y@y.com''\<rparr>]\<rparr>"
    by (simp add: exec.simps initial_service_def create_def increment_def Let_def)
  finally have b: "run (churn (2 ^ 53 - 4) @ ?ys) =
      \<lparr>nextId = 2 ^ 53,
       users = users initial_service @
         [\<lparr>id_user = 2 ^ 53, name = ''X'', email = ''x@y.com''\<rparr>,
          \<lparr>id_user = 2 ^ 53, name = ''Y'', email = ''y@y.com''\<rparr>]\<rparr>" .
  show ?thesis
    unfolding a b
    by (simp add: initial_service_def remove_def findOne_def findIndex_def splice_array_def
        Let_def)
qed

text \<open>
  Claim C5, amended. In every state that the seeded service reaches by a sequence of
  requests, after \<open>create\<close> the list that \<open>findAll\<close> returns is one record longer than
  before. If the sequence is regular and the body has no id, \<open>findOne\<close> on the id of the
  returned record succeeds and returns that very record.
\<close>

theorem create_grows_list_and_is_retrievable:
  "length (findAll (snd (create (run xs) dto))) = length (findAll (run xs)) + 1 \<and>
   (regular_from initial_service xs \<and> create_id dto = None \<longrightarrow>
      findOne (snd (create (run xs) dto)) (id_user (fst (create (run xs) dto))) =
        Inr (fst (create (run xs) dto)))"
proof (intro conjI impI)
  show "length (findAll (snd (create (run xs) dto))) = length (findAll (run xs)) + 1"
    by (simp add: findAll_def create_def Let_def)
  assume "regular_from initial_service xs \<and> create_id dto = None"
  then have "invariant (run xs)" and "create_id dto = None"
    by (simp_all add: invariant_run)
  then show "findOne (snd (create (run xs) dto)) (id_user (fst (create (run xs) dto))) =
     Inr (fst (create (run xs) dto))"
    by (rule findOne_after_create)
qed

theorem create_grows_list_and_is_retrievable_witness:
  "regular_from initial_service [Delete 2] \<and>
   length (findAll (snd (create (run [Delete 2])
      \<lparr>create_id = None, create_name = ''X'', create_email = ''x@y.com''\<rparr>))) = 3 \<and>
   findOne (snd (create (run [Delete 2])
      \<lparr>create_id = None, create_name = ''X'', create_email = ''x@y.com''\<rparr>)) 4 =
     Inr \<lparr>id_user = 4, name = ''X'', email = ''x@y.com''\<rparr>"
proof -
  let ?d = "\<lparr>create_id = None, create_name = ''X'', create_email = ''x@y.com''\<rparr>"
  have r: "run [Delete 2] =
    \<lparr>nextId = 4,
     users = [\<lparr>id_user = 1, name = ''Alice Johnson'', email = ''alice@example.com''\<rparr>,
              \<lparr>id_user = 3, name = ''Charlie Brown'', email = ''charlie@example.com''\<rparr>]\<rparr>"
    by (simp add: run_def exec.simps initial_service_def remove_def findIndex_def
        splice_array_def Let_def)
  have g: "regular_from initial_service [Delete 2]" by simp
  have c: "fst (create (run [Delete 2]) ?d) = \<lparr>id_user = 4, name = ''X'', email = ''x@y.com''\<rparr>"
    by (simp add: r create_def Let_def)
  have l: "length (findAll (run [Delete 2])) = 2" by (simp add: r findAll_def)
  have i: "create_id ?d = None" by simp
  note t = create_grows_list_and_is_retrievable [of "[Delete 2]" ?d]
  from t have "length (findAll (snd (create (run [Delete 2]) ?d))) =
      length (findAll (run [Delete 2])) + 1" by blast
  with l have 1: "length (findAll (snd (create (run [Delete 2]) ?d))) = 3" by simp
  from t g i have "findOne (snd (create (run [Delete 2]) ?d))
      (id_user (fst (create (run [Delete 2]) ?d))) = Inr (fst (create (run [Delete 2]) ?d))"
    by blast
  then have 2: "findOne (snd (create (run [Delete 2]) ?d)) 4 =
      Inr \<lparr>id_user = 4, name = ''X'', email = ''x@y.com''\<rparr>"
    by (simp only: c User.simps)
  from g 1 2 show ?thesis by blast
qed

text \<open>
  Without the restriction the second part fails, also for a body that has no id: after a
  Create whose body has id 5 on the seeded service, and after \<open>churn (2 ^ 53 - 4)\<close>
  followed by one Create, the array holds a record with the id that the next \<open>create\<close>
  hands out, and \<open>findOne\<close> returns that older record.
\<close>

theorem get_after_create_counterexample:
  "create_id \<lparr>create_id = None, create_name = ''Y'', create_email = ''y@y.com''\<rparr> = None \<and>
   findOne
     (snd (create (run [Create \<lparr>create_id = Some 5, create_name = ''X'', create_email = ''x@y.com''\<rparr>])
        \<lparr>create_id = None, create_name = ''Y'', create_email = ''y@y.com''\<rparr>))
     (id_user (fst (create (run [Create \<lparr>create_id = Some 5, create_name = ''X'', create_email = ''x@y.com''\<rparr>])
        \<lparr>create_id = None, create_name = ''Y'', create_email = ''y@y.com''\<rparr>))) \<noteq>
   Inr (fst (create (run [Create \<lparr>create_id = Some 5, create_name = ''X'', create_email = ''x@y.com''\<rparr>])
        \<lparr>create_id = None, create_name = ''Y'', create_email = ''y@y.com''\<rparr>)) \<and>
   findOne
     (snd (create (run (churn (2 ^ 53 - 4) @
            [Create \<lparr>create_id = None, create_name = ''X'', create_email = ''x@y.com''\<rparr>]))
        \<lparr>create_id = None, create_name = ''Y'', create_email = ''y@y.com''\<rparr>))
     (id_user (fst (create (run (churn (2 ^ 53 - 4) @
            [Create \<lparr>create_id = None, create_name = ''X'', create_email = ''x@y.com''\<rparr>]))
        \<lparr>create_id = None, create_name = ''Y'', create_email = ''y@y.com''\<rparr>))) \<noteq>
   Inr (fst (create (run (churn (2 ^ 53 - 4) @
            [Create \<lparr>create_id = None, create_name = ''X'', create_email = ''x@y.com''\<rparr>]))
        \<lparr>create_id = None, create_name = ''Y'', create_email = ''y@y.com''\<rparr>))"
proof -
  let ?ys = "[Create \<lparr>create_id = None, create_name = ''X'', create_email = ''x@y.com''\<rparr>]"
  have a: "run [Create \<lparr>create_id = Some 5, create_name = ''X'', create_email = ''x@y.com''\<rparr>] =
      \<lparr>nextId = 5,
       users = users initial_service @ [\<lparr>id_user = 5, name = ''X'', email = ''x@y.com''\<rparr>]\<rparr>"
    by (simp add: run_def exec.simps initial_service_def create_def increment_def Let_def)
  have "run (churn (2 ^ 53 - 4) @ ?ys) = steps (initial_service\<lparr>nextId := 2 ^ 53\<rparr>) ?ys"
    by (simp only: run_def steps_append run_churn_full [unfolded run_def])
  also have "\<dots> =
      \<lparr>nextId = 2 ^ 53,
       users = users initial_service @ [\<lparr>id_user = 2 ^ 53, name = ''X'', email = ''x@y.com''\<rparr>]\<rparr>"
    by (simp add: exec.simps initial_service_def create_def increment_def Let_def)
  finally have b: "run (churn (2 ^ 53 - 4) @ ?ys) =
      \<lparr>nextId = 2 ^ 53,
       users = users initial_service @ [\<lparr>id_user = 2 ^ 53, name = ''X'', email = ''x@y.com''\<rparr>]\<rparr>" .
  show ?thesis
    unfolding a b
    by (simp add: initial_service_def create_def findOne_def increment_def Let_def)
qed

text \<open>
  Claim C6. In every state and for every id that some record of the array carries,
  \<open>findOne\<close> returns a record of the array whose id is the one asked for.
\<close>

theorem findOne_returns_matching_id:
  "i \<in> set (ids s) \<Longrightarrow> \<exists>u. findOne s i = Inr u \<and> id_user u = i \<and> u \<in> set (users s)"
proof -
  assume p: "i \<in> set (ids s)"
  let ?k = "length (takeWhile (\<lambda>u. id_user u \<noteq> i) (users s))"
  have "findOne s i = Inr (users s ! ?k)" using p by (rule findOne_present)
  moreover have "id_user (users s ! ?k) = i" using p by (rule first_index_id)
  moreover have "users s ! ?k \<in> set (users s)" using first_index_less [OF p] by simp
  ultimately show ?thesis by blast
qed

theorem findOne_returns_matching_id_witness:
  "2 \<in> set (ids initial_service) \<and>
   (\<exists>u. findOne initial_service 2 = Inr u \<and> id_user u = 2 \<and> u \<in> set (users initial_service))"
proof -
  have h: "2 \<in> set (ids initial_service)" by (simp add: initial_service_def)
  from h findOne_returns_matching_id [OF h] show ?thesis by blast
qed

text \<open>
  Claim C7. A request that fails fails with \<open>NotFoundException\<close> and leaves both the
  array and the counter as they were; in particular \<open>update\<close> and \<open>remove\<close>, when they
  throw, have changed nothing (\<open>findOne\<close> never changes anything).
\<close>

theorem failed_operation_changes_nothing:
  "(fst (exec x s) = Failed e \<longrightarrow> snd (exec x s) = s \<and> (\<exists>i. e = NotFoundException i)) \<and>
   (fst (update s i dto) = Inl e \<longrightarrow> snd (update s i dto) = s) \<and>
   (fst (remove s i) = Inl e \<longrightarrow> snd (remove s i) = s)"
proof (intro conjI impI)
  assume f: "fst (update s i dto) = Inl e"
  show "snd (update s i dto) = s"
  proof (cases "i \<in> set (ids s)")
    case True
    with f show ?thesis by (simp add: update_present)
  next
    case False
    then show ?thesis by (simp add: update_absent)
  qed
next
  assume f: "fst (remove s i) = Inl e"
  show "snd (remove s i) = s"
  proof (cases "i \<in> set (ids s)")
    case True
    with f show ?thesis by (simp add: remove_present)
  next
    case False
    then show ?thesis by (simp add: remove_absent)
  qed
next
  assume f: "fst (exec x s) = Failed e"
  have "snd (exec x s) = s \<and> (\<exists>i. e = NotFoundException i)"
  proof (cases x)
    case List
    with f show ?thesis by (simp add: exec.simps)
  next
    case (Get j)
    with f show ?thesis by (cases e) (simp add: exec.simps split: sum.splits)
  next
    case (Create d)
    with f show ?thesis by (simp add: exec.simps split: prod.splits)
  next
    case (Update j d)
    show ?thesis
    proof (cases "j \<in> set (ids s)")
      case True
      with f Update show ?thesis by (simp add: exec.simps update_present)
    next
      case False
      with f Update show ?thesis by (cases e) (simp add: exec.simps update_absent)
    qed
  next
    case (Delete j)
    show ?thesis
    proof (cases "j \<in> set (ids s)")
      case True
      with f Delete show ?thesis by (simp add: exec.simps remove_present)
    next
      case False
      with f Delete show ?thesis by (cases e) (simp add: exec.simps remove_absent)
    qed
  qed
  then show "snd (exec x s) = s" and "\<exists>i. e = NotFoundException i" by simp_all
qed

theorem failed_operation_changes_nothing_witness:
  "fst (exec (Delete 999) initial_service) = Failed (NotFoundException 999) \<and>
   snd (exec (Delete 999) initial_service) = initial_service \<and>
   fst (update initial_service 999 \<lparr>update_id = None, update_name = Some ''Zed'', update_email = None\<rparr>) =
     Inl (NotFoundException 999) \<and>
   snd (update initial_service 999 \<lparr>update_id = None, update_name = Some ''Zed'', update_email = None\<rparr>) =
     initial_service \<and>
   fst (remove initial_service 999) = Inl (NotFoundException 999) \<and>
   snd (remove initial_service 999) = initial_service"
proof -
  have a: "999 \<notin> set (ids initial_service)" by (simp add: initial_service_def)
  have 1: "fst (exec (Delete 999) initial_service) = Failed (NotFoundException 999)"
    by (simp add: exec.simps remove_absent [OF a])
  have 2: "fst (update initial_service 999 \<lparr>update_id = None, update_name = Some ''Zed'', update_email = None\<rparr>) =
     Inl (NotFoundException 999)"
    by (simp add: update_absent [OF a])
  have 3: "fst (remove initial_service 999) = Inl (NotFoundException 999)"
    by (simp add: remove_absent [OF a])
  from 1 2 3
    failed_operation_changes_nothing
      [of "Delete 999" initial_service "NotFoundException 999" 999
          "\<lparr>update_id = None, update_name = Some ''Zed'', update_email = None\<rparr>"]
  show ?thesis by blast
qed

text \<open>
  Claim C8, amended. The invariant holds in the seeded state and every regular request
  preserves it, so in every state reached from the seeded one by a regular sequence all
  ids are positive, pairwise different and strictly increasing along the array, which is
  the order of insertion. In every state, \<open>findAll\<close> returns the array as it is, List and
  Get change nothing, Create appends one record and leaves the others in place, Update
  keeps the length of the array and, when its body has no id, the id at every position,
  and Delete either fails and changes nothing or takes one position out of the array,
  the remaining records keeping their values and their order.
\<close>

theorem ids_and_order_invariant:
  "invariant initial_service \<and>
   (invariant s \<and> regular s x \<longrightarrow> invariant (snd (exec x s))) \<and>
   (regular_from initial_service xs \<longrightarrow>
      (\<forall>u\<in>set (users (run xs)). 0 < id_user u) \<and>
      distinct (ids (run xs)) \<and>
      sorted_wrt (<) (ids (run xs))) \<and>
   findAll s = users s \<and>
   snd (exec List s) = s \<and>
   snd (exec (Get i) s) = s \<and>
   users (snd (exec (Create cdto) s)) = users s @ [fst (create s cdto)] \<and>
   (update_id dto = None \<longrightarrow> ids (snd (exec (Update i dto) s)) = ids s) \<and>
   length (users (snd (exec (Update i dto) s))) = length (users s) \<and>
   (snd (exec (Delete i) s) = s \<or>
    (\<exists>k<length (users s).
       users (snd (exec (Delete i) s)) = take k (users s) @ drop (Suc k) (users s))) \<and>
   subseq (users (snd (exec (Delete i) s))) (users s)"
proof -
  have 1: "invariant initial_service" by (rule invariant_initial)
  have 2: "invariant s \<and> regular s x \<longrightarrow> invariant (snd (exec x s))"
    by (simp add: invariant_exec)
  have 3: "regular_from initial_service xs \<longrightarrow>
      (\<forall>u\<in>set (users (run xs)). 0 < id_user u) \<and>
      distinct (ids (run xs)) \<and> sorted_wrt (<) (ids (run xs))"
  proof
    assume "regular_from initial_service xs"
    then have inv: "invariant (run xs)" by (rule invariant_run)
    have "\<forall>u\<in>set (users (run xs)). 0 < id_user u" using inv by (simp add: invariant_def)
    moreover have "distinct (ids (run xs))" using inv by (rule invariant_distinct)
    moreover have "sorted_wrt (<) (ids (run xs))" using inv by (simp add: invariant_def)
    ultimately show "(\<forall>u\<in>set (users (run xs)). 0 < id_user u) \<and>
      distinct (ids (run xs)) \<and> sorted_wrt (<) (ids (run xs))" by blast
  qed
  have 6: "findAll s = users s" by (simp add: findAll_def)
  have 7: "snd (exec List s) = s" "snd (exec (Get i) s) = s" by (simp_all add: snd_exec)
  have 8: "users (snd (exec (Create cdto) s)) = users s @ [fst (create s cdto)]"
    by (simp add: snd_exec create_def Let_def)
  have 9: "update_id dto = None \<longrightarrow> ids (snd (exec (Update i dto) s)) = ids s"
    by (simp add: snd_exec ids_update)
  have 12: "length (users (snd (exec (Update i dto) s))) = length (users s)"
    by (cases "i \<in> set (ids s)") (simp_all add: snd_exec update_present update_absent)
  have 10: "snd (exec (Delete i) s) = s \<or>
    (\<exists>k<length (users s).
       users (snd (exec (Delete i) s)) = take k (users s) @ drop (Suc k) (users s))"
  proof (cases "i \<in> set (ids s)")
    case True
    let ?k = "length (takeWhile (\<lambda>u. id_user u \<noteq> i) (users s))"
    have "?k < length (users s)" using True by (rule first_index_less)
    moreover have "users (snd (exec (Delete i) s)) = take ?k (users s) @ drop (Suc ?k) (users s)"
      by (simp add: snd_exec remove_present [OF True])
    ultimately show ?thesis by blast
  next
    case False
    then show ?thesis by (simp add: snd_exec remove_absent)
  qed
  have 11: "subseq (users (snd (exec (Delete i) s))) (users s)"
  proof -
    have "subseq (take k (users s) @ drop (Suc k) (users s)) (users s)" for k
    proof -
      have "drop (Suc k) (users s) = drop 1 (drop k (users s))" by simp
      then have "suffix (drop (Suc k) (users s)) (drop k (users s))"
        by (simp only: suffix_drop)
      then have "subseq (drop (Suc k) (users s)) (drop k (users s))"
        by (rule suffix_imp_subseq)
      then have "subseq (take k (users s) @ drop (Suc k) (users s))
                        (take k (users s) @ drop k (users s))"
        by (rule list_emb_append_mono [OF subseq_order.order_refl])
      then show ?thesis by simp
    qed
    with 10 show ?thesis by auto
  qed
  from 1 2 3 6 7 8 9 12 10 11 show ?thesis by blast
qed

theorem ids_and_order_invariant_witness:
  "invariant initial_service \<and>
   regular initial_service (Delete 2) \<and>
   invariant (snd (exec (Delete 2) initial_service)) \<and>
   regular_from initial_service
     [Create \<lparr>create_id = None, create_name = ''X'', create_email = ''x@y.com''\<rparr>, Delete 2] \<and>
   distinct (ids (run
     [Create \<lparr>create_id = None, create_name = ''X'', create_email = ''x@y.com''\<rparr>, Delete 2])) \<and>
   sorted_wrt (<) (ids (run
     [Create \<lparr>create_id = None, create_name = ''X'', create_email = ''x@y.com''\<rparr>, Delete 2])) \<and>
   ids (snd (exec (Update 2 \<lparr>update_id = None, update_name = Some ''Zed'', update_email = None\<rparr>)
              initial_service)) = [1, 2, 3] \<and>
   subseq (users (snd (exec (Delete 2) initial_service))) (users initial_service)"
proof -
  let ?xs = "[Create \<lparr>create_id = None, create_name = ''X'', create_email = ''x@y.com''\<rparr>, Delete 2]"
  let ?d = "\<lparr>update_id = None, update_name = Some ''Zed'', update_email = None\<rparr>"
  have i: "ids initial_service = [1, 2, 3]" by (simp add: initial_service_def)
  have r: "regular initial_service (Delete 2)" by simp
  have rf: "regular_from initial_service ?xs" by (simp add: initial_service_def)
  have u: "update_id ?d = None" by simp
  note t = ids_and_order_invariant
     [of initial_service "Delete 2" ?xs 2
         "\<lparr>create_id = None, create_name = ''X'', create_email = ''x@y.com''\<rparr>" ?d]
  from t have 1: "invariant initial_service" by blast
  from t 1 r have 2: "invariant (snd (exec (Delete 2) initial_service))" by blast
  from t rf have 3: "distinct (ids (run ?xs))" and 4: "sorted_wrt (<) (ids (run ?xs))"
    by blast+
  from t u have "ids (snd (exec (Update 2 ?d) initial_service)) = ids initial_service"
    by blast
  then have 5: "ids (snd (exec (Update 2 ?d) initial_service)) = [1, 2, 3]"
    by (simp only: i)
  from t have 6: "subseq (users (snd (exec (Delete 2) initial_service))) (users initial_service)"
    by blast
  from 1 r 2 rf 3 4 5 6 show ?thesis by blast
qed

text \<open>
  For requests that are not regular the property fails: an Update whose body has id 1
  changes the id of user 2 to 1, a Create whose body has id 0 stores a record with id 0,
  and the two Creates that follow \<open>churn (2 ^ 53 - 4)\<close> store two records with the id
  \<open>2 ^ 53\<close>.
\<close>

theorem ids_invariant_counterexample:
  "ids (snd (exec (Update 2 \<lparr>update_id = Some 1, update_name = None, update_email = None\<rparr>)
              initial_service)) = [1, 1, 3] \<and>
   ids initial_service = [1, 2, 3] \<and>
   ids (run [Create \<lparr>create_id = Some 0, create_name = ''X'', create_email = ''x@y.com''\<rparr>]) =
     [1, 2, 3, 0] \<and>
   ids (run (churn (2 ^ 53 - 4) @
       [Create \<lparr>create_id = None, create_name = ''X'', create_email = ''x@y.com''\<rparr>,
        Create \<lparr>create_id = None, create_name = ''Y'', create_email = ''y@y.com''\<rparr>])) =
     [1, 2, 3, 2 ^ 53, 2 ^ 53]"
proof -
  let ?ys = "[Create \<lparr>create_id = None, create_name = ''X'', create_email = ''x@y.com''\<rparr>,
        Create \<lparr>create_id = None, create_name = ''Y'', create_email = ''y@y.com''\<rparr>]"
  have "run (churn (2 ^ 53 - 4) @ ?ys) = steps (initial_service\<lparr>nextId := 2 ^ 53\<rparr>) ?ys"
    by (simp only: run_def steps_append run_churn_full [unfolded run_def])
  then have b: "ids (run (churn (2 ^ 53 - 4) @ ?ys)) = [1, 2, 3, 2 ^ 53, 2 ^ 53]"
    by (simp add: exec.simps initial_service_def create_def increment_def Let_def)
  have a: "ids (snd (exec (Update 2 \<lparr>update_id = Some 1, update_name = None, update_email = None\<rparr>)
              initial_service)) = [1, 1, 3]"
    by (simp add: exec.simps initial_service_def update_def findOne_def findIndex_def
        assign_def Let_def)
  have c: "ids (run [Create \<lparr>create_id = Some 0, create_name = ''X'', create_email = ''x@y.com''\<rparr>]) =
     [1, 2, 3, 0]"
    by (simp add: run_def exec.simps initial_service_def create_def Let_def)
  have i: "ids initial_service = [1, 2, 3]" by (simp add: initial_service_def)
  from a i c b show ?thesis by blast
qed

text \<open>
  Claim C10. In every state, also one where several records carry the same id, and
  for every id present: \<open>remove\<close> takes out the record at the least position \<open>k\<close> whose
  record carries the id and nothing else. The array afterwards is the part before \<open>k\<close>
  followed by the part after \<open>k\<close>, one record shorter, and the counter is unchanged.
\<close>

theorem remove_deletes_first_match_only:
  assumes "i \<in> set (ids s)"
  shows "\<exists>k. k < length (users s) \<and> id_user (users s ! k) = i \<and>
             (\<forall>j<k. id_user (users s ! j) \<noteq> i) \<and>
             remove s i = (Inr (), s\<lparr>users := take k (users s) @ drop (Suc k) (users s)\<rparr>) \<and>
             length (users (snd (remove s i))) + 1 = length (users s)"
proof -
  let ?k = "length (takeWhile (\<lambda>u. id_user u \<noteq> i) (users s))"
  have "?k < length (users s)" using assms by (rule first_index_less)
  moreover have "id_user (users s ! ?k) = i" using assms by (rule first_index_id)
  moreover have "\<forall>j<?k. id_user (users s ! j) \<noteq> i" using first_index_least by blast
  moreover have "remove s i = (Inr (), s\<lparr>users := take ?k (users s) @ drop (Suc ?k) (users s)\<rparr>)"
    using assms by (rule remove_present)
  moreover have "length (users (snd (remove s i))) + 1 = length (users s)"
    using assms by (rule length_after_remove)
  ultimately show ?thesis by blast
qed

theorem remove_deletes_first_match_only_witness:
  "2 \<in> set (ids \<lparr>nextId = 4, users =
        [\<lparr>id_user = 1, name = ''a'', email = ''a@x''\<rparr>,
         \<lparr>id_user = 2, name = ''b'', email = ''b@x''\<rparr>,
         \<lparr>id_user = 2, name = ''c'', email = ''c@x''\<rparr>]\<rparr>) \<and>
   remove \<lparr>nextId = 4, users =
        [\<lparr>id_user = 1, name = ''a'', email = ''a@x''\<rparr>,
         \<lparr>id_user = 2, name = ''b'', email = ''b@x''\<rparr>,
         \<lparr>id_user = 2, name = ''c'', email = ''c@x''\<rparr>]\<rparr> 2 =
      (Inr (), \<lparr>nextId = 4, users =
        [\<lparr>id_user = 1, name = ''a'', email = ''a@x''\<rparr>,
         \<lparr>id_user = 2, name = ''c'', email = ''c@x''\<rparr>]\<rparr>)"
proof -
  define s where "s = \<lparr>nextId = 4, users =
        [\<lparr>id_user = 1, name = ''a'', email = ''a@x''\<rparr>,
         \<lparr>id_user = 2, name = ''b'', email = ''b@x''\<rparr>,
         \<lparr>id_user = 2, name = ''c'', email = ''c@x''\<rparr>]\<rparr>"
  have p: "2 \<in> set (ids s)" by (simp add: s_def)
  from remove_deletes_first_match_only [OF p]
  obtain k where k: "k < length (users s)"
    and at: "id_user (users s ! k) = 2"
    and least: "\<forall>j<k. id_user (users s ! j) \<noteq> 2"
    and r: "remove s 2 = (Inr (), s\<lparr>users := take k (users s) @ drop (Suc k) (users s)\<rparr>)"
    by blast
  from k have "k = 0 \<or> k = 1 \<or> k = 2" by (auto simp: s_def)
  moreover have "k \<noteq> 0"
  proof
    assume "k = 0"
    with at have "id_user (users s ! 0) = 2" by simp
    then show False by (simp add: s_def)
  qed
  moreover have "k \<noteq> 2"
  proof
    assume "k = 2"
    with least have "id_user (users s ! 1) \<noteq> 2" by simp
    then show False by (simp add: s_def)
  qed
  ultimately have "k = 1" by blast
  with r have "remove s 2 = (Inr (), s\<lparr>users := take 1 (users s) @ drop (Suc 1) (users s)\<rparr>)"
    by simp
  then have "remove s 2 = (Inr (), \<lparr>nextId = 4, users =
        [\<lparr>id_user = 1, name = ''a'', email = ''a@x''\<rparr>,
         \<lparr>id_user = 2, name = ''c'', email = ''c@x''\<rparr>]\<rparr>)"
    by (simp add: s_def)
  with p show ?thesis unfolding s_def by blast
qed

section \<open>The load runner: statements append to the trace\<close>


lemma appendsI:
  "(\<And>w tr. f (w, tr) = (fst (f (w, [])), fst (snd (f (w, []))), tr @ snd (snd (f (w, []))))) \<Longrightarrow>
   appends f"
  unfolding appends_def by blast

lemma appendsD:
  assumes "appends f" and "f (w, []) = (a, w', tr')"
  shows "f (w, tr) = (a, w', tr @ tr')"
proof -
  from assms(1)
  have "f (w, tr) = (fst (f (w, [])), fst (snd (f (w, []))), tr @ snd (snd (f (w, []))))"
    unfolding appends_def by blast
  then show ?thesis by (simp only: assms(2) fst_conv snd_conv)
qed

lemma appends_http_request: "appends (http_request env rq)"
  by (rule appendsI) (simp add: http_request_def split_beta)

lemma appends_http_get: "appends (http_get env u ps)"
  unfolding http_get_def by (rule appends_http_request)

lemma appends_http_post: "appends (http_post env u b ps)"
  unfolding http_post_def by (rule appends_http_request)

lemma appends_http_put: "appends (http_put env u b ps)"
  unfolding http_put_def by (rule appends_http_request)

lemma appends_http_del: "appends (http_del env u ps)"
  unfolding http_del_def by (rule appends_http_request)

lemma appends_Date_now: "appends (Date_now env)"
  by (rule appendsI) (simp add: Date_now_def split_beta)

lemma appends_check: "appends (check r sets)"
  by (rule appendsI) (simp add: check_def split: prod.splits option.splits)

lemma appends_emit: "appends (emit a)"
  by (rule appendsI) (simp add: emit_def)

lemma appends_sleep: "appends (sleep env t)"
  by (rule appendsI) (simp add: sleep_def)

lemma appends_give: "appends (give v)"
  by (rule appendsI) (simp add: give_def)

lemma appends_ok: "appends m \<Longrightarrow> appends (ok m)"
proof (rule appendsI)
  fix w tr
  assume m: "appends m"
  obtain a w' tr' where e: "m (w, []) = (a, w', tr')" by (metis prod_cases3)
  from appendsD [OF m e] have "m (w, tr) = (a, w', tr @ tr')" .
  with e show "ok m (w, tr) = (fst (ok m (w, [])), fst (snd (ok m (w, []))), tr @ snd (snd (ok m (w, []))))"
    by (simp add: ok_def)
qed

lemma appends_and_then:
  assumes m: "appends m" and f: "\<And>a. appends (f a)"
  shows "appends (and_then m f)"
proof (rule appendsI)
  fix w tr
  obtain r w' tr' where e: "m (w, []) = (r, w', tr')" by (metis prod_cases3)
  from appendsD [OF m e] have e': "m (w, tr) = (r, w', tr @ tr')" .
  show "and_then m f (w, tr) =
      (fst (and_then m f (w, [])), fst (snd (and_then m f (w, []))),
       tr @ snd (snd (and_then m f (w, []))))"
  proof (cases r)
    case (Inl x)
    with e e' show ?thesis by (simp add: and_then_def)
  next
    case (Inr a)
    obtain b w'' tr'' where g: "f a (w', []) = (b, w'', tr'')" by (metis prod_cases3)
    from appendsD [OF f g] have "f a (w', tr') = (b, w'', tr' @ tr'')"
      and "f a (w', tr @ tr') = (b, w'', (tr @ tr') @ tr'')" by blast+
    with Inr e e' show ?thesis by (simp add: and_then_def)
  qed
qed

lemma appends_if: "appends a \<Longrightarrow> appends b \<Longrightarrow> appends (if c then a else b)"
  by simp

lemma appends_Let: "(\<And>x. appends (f x)) \<Longrightarrow> appends (Let v f)"
  by (simp add: Let_def)

lemma appends_group: "appends f \<Longrightarrow> appends (group nm f)"
proof -
  have "group nm f = f" by (rule ext) (simp add: group_def)
  then show "appends f \<Longrightarrow> appends (group nm f)" by simp
qed

lemmas appends_rules =
  appends_and_then appends_ok appends_give appends_if appends_Let appends_group
  appends_http_get appends_http_post appends_http_put appends_http_del appends_Date_now
  appends_check appends_emit appends_sleep




lemma appends_setup_function: "appends (setup_function env)"
  unfolding setup_function_def by (intro appends_rules)




section \<open>The load runner: what each function does\<close>




lemma default_function_raise:
  assumes "read_operations env (w, tr) = (Inl e, wa, tra)"
  shows "default_function env d (w, tr) = (Inl e, wa, tra)"
  by (simp add: default_function_def and_then_def group_def assms)





section \<open>The claim about the load runner\<close>




end
